theory Spec2Isabelle
  imports Main "HOL-Library.Word" "HOL-Library.Sublist"
begin

section \<open>JavaScript strings\<close>

text \<open>
  A JavaScript string is a sequence of UTF-16 code units. The regular expressions of
  \<^verbatim>\<open>Exists.ts\<close> carry no \<^verbatim>\<open>u\<close> flag, so they match code unit by code unit.
\<close>

type_synonym cu = "16 word"
type_synonym jsstring = "cu list"

abbreviation CU :: "char \<Rightarrow> cu" where
  "CU c \<equiv> of_char c"

definition ustr :: "string \<Rightarrow> jsstring" where
  "ustr s = map of_char s"

text \<open>The character classes of ECMAScript: LineTerminator, \<^verbatim>\<open>\s\<close>, \<^verbatim>\<open>\w\<close>, \<^verbatim>\<open>.\<close> and decimal digits.\<close>

definition isLineTerminator :: "cu \<Rightarrow> bool" where
  "isLineTerminator c = (c = 0x0A \<or> c = 0x0D \<or> c = 0x2028 \<or> c = 0x2029)"

definition isSpace :: "cu \<Rightarrow> bool" where
  "isSpace c =
     (c = 0x09 \<or> c = 0x0B \<or> c = 0x0C \<or> c = 0x20 \<or> c = 0xA0 \<or> c = 0x1680 \<or>
      (0x2000 \<le> c \<and> c \<le> 0x200A) \<or> c = 0x202F \<or> c = 0x205F \<or> c = 0x3000 \<or>
      c = 0xFEFF \<or> isLineTerminator c)"

definition isWordChar :: "cu \<Rightarrow> bool" where
  "isWordChar c =
     ((0x41 \<le> c \<and> c \<le> 0x5A) \<or> (0x61 \<le> c \<and> c \<le> 0x7A) \<or>
      (0x30 \<le> c \<and> c \<le> 0x39) \<or> c = 0x5F)"

definition isDot :: "cu \<Rightarrow> bool" where
  "isDot c = (\<not> isLineTerminator c)"

definition isDigit :: "cu \<Rightarrow> bool" where
  "isDigit c = (0x30 \<le> c \<and> c \<le> 0x39)"

text \<open>
  Case-insensitive comparison (flag \<^verbatim>\<open>i\<close> without \<^verbatim>\<open>u\<close>): both sides are canonicalised
  by upper-casing. The pattern characters compared this way are the ASCII letters of
  MATCH, WHERE and AND; a code unit from 128 on never canonicalises to an ASCII one, so
  ASCII upper-casing decides the comparison.
\<close>

definition canonicalize :: "cu \<Rightarrow> cu" where
  "canonicalize c = (if 0x61 \<le> c \<and> c \<le> 0x7A then c - 0x20 else c)"

definition ci :: "char \<Rightarrow> cu \<Rightarrow> bool" where
  "ci p c = (canonicalize c = canonicalize (of_char p))"

definition isChar :: "char \<Rightarrow> cu \<Rightarrow> bool" where
  "isChar p c = (c = of_char p)"

definition isNotChar :: "char \<Rightarrow> cu \<Rightarrow> bool" where
  "isNotChar p c = (c \<noteq> of_char p)"

section \<open>Regular expressions with backtracking\<close>

text \<open>
  The fragment of ECMAScript patterns used by the source. Every quantified atom of the
  source is a single character class, so the quantifiers take a class. A capture group
  carries its number.
\<close>

datatype re =
    Atom "cu \<Rightarrow> bool"
  | Bol
  | Eol
  | Seq re re
  | Alt re re
  | Opt re
  | Star "cu \<Rightarrow> bool"
  | Plus "cu \<Rightarrow> bool"
  | LazyStar "cu \<Rightarrow> bool"
  | Group nat re
  | Lookahead re

text \<open>
  A matcher state is the index reached, the input still to read and the captures. A
  matcher returns every way to match in the order the backtracking of ECMAScript tries
  them: the head of the list is the match that is found.
\<close>

type_synonym captures = "nat \<Rightarrow> jsstring option"
type_synonym mstate = "nat \<times> jsstring \<times> captures"

fun star_greedy :: "(cu \<Rightarrow> bool) \<Rightarrow> mstate \<Rightarrow> mstate list" where
  "star_greedy p (i, [], c) = [(i, [], c)]"
| "star_greedy p (i, x # xs, c) =
     (if p x then star_greedy p (Suc i, xs, c) else []) @ [(i, x # xs, c)]"

fun star_lazy :: "(cu \<Rightarrow> bool) \<Rightarrow> mstate \<Rightarrow> mstate list" where
  "star_lazy p (i, [], c) = [(i, [], c)]"
| "star_lazy p (i, x # xs, c) =
     (i, x # xs, c) # (if p x then star_lazy p (Suc i, xs, c) else [])"

fun rmatch :: "re \<Rightarrow> mstate \<Rightarrow> mstate list" where
  "rmatch (Atom p) (i, xs, c) =
     (case xs of [] \<Rightarrow> [] | x # xs' \<Rightarrow> if p x then [(Suc i, xs', c)] else [])"
| "rmatch Bol (i, xs, c) = (if i = 0 then [(i, xs, c)] else [])"
| "rmatch Eol (i, xs, c) = (if xs = [] then [(i, xs, c)] else [])"
| "rmatch (Seq r1 r2) s = concat (map (rmatch r2) (rmatch r1 s))"
| "rmatch (Alt r1 r2) s = rmatch r1 s @ rmatch r2 s"
| "rmatch (Opt r) s = rmatch r s @ [s]"
| "rmatch (Star p) s = star_greedy p s"
| "rmatch (Plus p) (i, xs, c) =
     (case xs of [] \<Rightarrow> [] | x # xs' \<Rightarrow> if p x then star_greedy p (Suc i, xs', c) else [])"
| "rmatch (LazyStar p) s = star_lazy p s"
| "rmatch (Group n r) (i, xs, c) =
     map (\<lambda>(j, ys, c'). (j, ys, c'(n \<mapsto> take (j - i) xs))) (rmatch r (i, xs, c))"
| "rmatch (Lookahead r) (i, xs, c) =
     (case rmatch r (i, xs, c) of [] \<Rightarrow> [] | (_, _, c') # _ \<Rightarrow> [(i, xs, c')])"

fun ngroups :: "re \<Rightarrow> nat" where
  "ngroups (Seq r1 r2) = ngroups r1 + ngroups r2"
| "ngroups (Alt r1 r2) = ngroups r1 + ngroups r2"
| "ngroups (Opt r) = ngroups r"
| "ngroups (Group n r) = Suc (ngroups r)"
| "ngroups (Lookahead r) = ngroups r"
| "ngroups _ = 0"

fun lit_i :: "string \<Rightarrow> re \<Rightarrow> re" where
  "lit_i [] k = k"
| "lit_i (a # as) k = Seq (Atom (ci a)) (lit_i as k)"

text \<open>
  RegExpBuiltinExec without \<^verbatim>\<open>g\<close> or \<^verbatim>\<open>y\<close>: the first index, from the left, at which the
  pattern matches. The result is the start, the end and the captures of the match.
\<close>

fun exec :: "re \<Rightarrow> nat \<Rightarrow> jsstring \<Rightarrow> (nat \<times> nat \<times> captures) option" where
  "exec r i xs =
     (case rmatch r (i, xs, Map.empty) of
        (j, _, c) # _ \<Rightarrow> Some (i, j, c)
      | [] \<Rightarrow> (case xs of [] \<Rightarrow> None | _ # xs' \<Rightarrow> exec r (Suc i) xs'))"

text \<open>A match never moves backwards and never reads past the input.\<close>


lemma star_greedy_bounds:
  "(j, ys, c') \<in> set (star_greedy p (i, xs, c)) \<Longrightarrow> i \<le> j \<and> ys = drop (j - i) xs \<and> j \<le> i + length xs \<and> c' = c"
proof (induction xs arbitrary: i)
  case Nil then show ?case by simp
next
  case (Cons x xs)
  show ?case
  proof (cases "(j, ys, c') = (i, x # xs, c)")
    case True then show ?thesis by simp
  next
    case False
    with Cons.prems have "p x" and "(j, ys, c') \<in> set (star_greedy p (Suc i, xs, c))"
      by (auto split: if_splits)
    from Cons.IH[OF this(2)] show ?thesis by (auto simp: drop_Cons')
  qed
qed

lemma star_lazy_bounds:
  "(j, ys, c') \<in> set (star_lazy p (i, xs, c)) \<Longrightarrow> i \<le> j \<and> ys = drop (j - i) xs \<and> j \<le> i + length xs \<and> c' = c"
proof (induction xs arbitrary: i)
  case Nil then show ?case by simp
next
  case (Cons x xs)
  show ?case
  proof (cases "(j, ys, c') = (i, x # xs, c)")
    case True then show ?thesis by simp
  next
    case False
    with Cons.prems have "p x" and "(j, ys, c') \<in> set (star_lazy p (Suc i, xs, c))"
      by (auto split: if_splits)
    from Cons.IH[OF this(2)] show ?thesis by (auto simp: drop_Cons')
  qed
qed

lemma rmatch_bounds:
  "(j, ys, c') \<in> set (rmatch r (i, xs, c)) \<Longrightarrow> i \<le> j \<and> ys = drop (j - i) xs \<and> j \<le> i + length xs"
proof (induction r arbitrary: i xs c j ys c')
  case (Atom p) then show ?case by (auto split: list.splits if_splits)
next
  case Bol then show ?case by (auto split: if_splits)
next
  case Eol then show ?case by (auto split: if_splits)
next
  case (Seq r1 r2)
  from Seq.prems obtain k zs d where
    m1: "(k, zs, d) \<in> set (rmatch r1 (i, xs, c))" and m2: "(j, ys, c') \<in> set (rmatch r2 (k, zs, d))"
    by auto
  from Seq.IH(1)[OF m1] Seq.IH(2)[OF m2] show ?case by auto
next
  case (Alt r1 r2) then show ?case by auto
next
  case (Opt r) then show ?case by auto
next
  case (Star p) then show ?case using star_greedy_bounds by auto
next
  case (Plus p)
  then show ?case 
  proof (cases xs)
    case Nil with Plus show ?thesis by simp
  next
    case (Cons x xs')
    with Plus have "(j, ys, c') \<in> set (star_greedy p (Suc i, xs', c))" by (auto split: if_splits)
    from star_greedy_bounds[OF this] Cons show ?thesis by (auto simp: drop_Cons')
  qed
next
  case (LazyStar p) then show ?case using star_lazy_bounds by auto
next
  case (Group n r) then show ?case by auto
next
  case (Lookahead r) then show ?case by (auto split: list.splits)
qed


lemma rmatch_hd_bounds:
  "rmatch r (i, xs, c) = (j, ys, c') # ms \<Longrightarrow> i \<le> j \<and> ys = drop (j - i) xs \<and> j \<le> i + length xs"
  using rmatch_bounds[of j ys c' r i xs c] by simp

lemma exec_bounds:
  "exec r i xs = Some (st, en, c) \<Longrightarrow> i \<le> st \<and> st \<le> en \<and> en \<le> i + length xs"
proof (induction xs arbitrary: i)
  case Nil
  then show ?case
    by (auto split: list.splits dest: rmatch_hd_bounds)
next
  case (Cons x xs)
  show ?case
  proof (cases "rmatch r (i, x # xs, Map.empty)")
    case Nil
    with Cons.prems have "exec r (Suc i) xs = Some (st, en, c)" by simp
    from Cons.IH[OF this] show ?thesis by simp
  next
    case (Cons m ms)
    with Cons.prems show ?thesis
      by (cases m) (auto dest: rmatch_hd_bounds)
  qed
qed

declare exec.simps [simp del]

section \<open>String methods\<close>

text \<open>
  GetSubstitution of ECMAScript 2023 (no named groups): \<^verbatim>\<open>$$\<close>, \<^verbatim>\<open>$&\<close>, \<^verbatim>\<open>$`\<close>, \<^verbatim>\<open>$'\<close>,
  \<^verbatim>\<open>$n\<close> and \<^verbatim>\<open>$nn\<close> are replaced, every other code unit is copied. \<open>m\<close> is the number of
  capture groups of the pattern.
\<close>

definition digitVal :: "cu \<Rightarrow> nat" where
  "digitVal c = unat c - 0x30"

definition capture :: "captures \<Rightarrow> nat \<Rightarrow> jsstring" where
  "capture caps n = (case caps n of None \<Rightarrow> [] | Some s \<Rightarrow> s)"

fun getSubstitution :: "jsstring \<Rightarrow> jsstring \<Rightarrow> nat \<Rightarrow> nat \<Rightarrow> captures \<Rightarrow> jsstring \<Rightarrow> jsstring" where
  "getSubstitution matched str pos m caps [] = []"
| "getSubstitution matched str pos m caps [c] = [c]"
| "getSubstitution matched str pos m caps (c # d # t) =
     (if c \<noteq> CU CHR ''$'' then c # getSubstitution matched str pos m caps (d # t)
      else if d = CU CHR ''$'' then CU CHR ''$'' # getSubstitution matched str pos m caps t
      else if d = CU CHR ''`'' then take pos str @ getSubstitution matched str pos m caps t
      else if d = CU CHR ''&'' then matched @ getSubstitution matched str pos m caps t
      else if d = CU (CHR 0x27) then
        drop (pos + length matched) str @ getSubstitution matched str pos m caps t
      else if isDigit d then
        (case t of
           e # t' \<Rightarrow>
             if isDigit e \<and> 10 * digitVal d + digitVal e \<le> m then
               (if 1 \<le> 10 * digitVal d + digitVal e
                then capture caps (10 * digitVal d + digitVal e) @
                     getSubstitution matched str pos m caps t'
                else c # d # e # getSubstitution matched str pos m caps t')
             else if 1 \<le> digitVal d \<and> digitVal d \<le> m
               then capture caps (digitVal d) @ getSubstitution matched str pos m caps t
               else c # d # getSubstitution matched str pos m caps t
         | [] \<Rightarrow>
             if 1 \<le> digitVal d \<and> digitVal d \<le> m
               then capture caps (digitVal d) @ getSubstitution matched str pos m caps t
               else c # d # getSubstitution matched str pos m caps t)
      else c # getSubstitution matched str pos m caps (d # t))"

text \<open>\<^verbatim>\<open>String.prototype.replace\<close> with a pattern that has no \<^verbatim>\<open>g\<close> flag: the first match only.\<close>

definition replaceFirst :: "re \<Rightarrow> jsstring \<Rightarrow> jsstring \<Rightarrow> jsstring" where
  "replaceFirst r tmpl str =
     (case exec r 0 str of
        None \<Rightarrow> str
      | Some (st, en, caps) \<Rightarrow>
          take st str @
          getSubstitution (take (en - st) (drop st str)) str st (ngroups r) caps tmpl @
          drop en str)"

text \<open>
  \<^verbatim>\<open>String.prototype.replace\<close> with a \<^verbatim>\<open>g\<close> pattern: matches are collected from the left,
  each search starting at the end of the previous match (one further after an empty
  match). \<open>xs\<close> is the input from index \<open>i\<close> on.
\<close>

function replaceAllFrom :: "re \<Rightarrow> jsstring \<Rightarrow> jsstring \<Rightarrow> nat \<Rightarrow> jsstring \<Rightarrow> jsstring" where
  "replaceAllFrom r tmpl str i xs =
     (case exec r i xs of
        None \<Rightarrow> xs
      | Some (st, en, caps) \<Rightarrow>
          take (st - i) xs @
          getSubstitution (take (en - st) (drop (st - i) xs)) str st (ngroups r) caps tmpl @
          (if en = st then
             (case drop (st - i) xs of
                [] \<Rightarrow> []
              | y # ys \<Rightarrow> y # replaceAllFrom r tmpl str (Suc st) ys)
           else replaceAllFrom r tmpl str en (drop (en - i) xs)))"
  by pat_completeness auto
termination
proof (relation "measure (\<lambda>(r, tmpl, str, i, xs). length xs)", goal_cases)
  case 1 show ?case by simp
next
  case (2 r tmpl str i xs x2 st y en caps y' ys)
  then have "length (drop (st - i) xs) = Suc (length ys)" by simp
  then show ?case by simp
next
  case (3 r tmpl str i xs x2 st y en caps)
  from exec_bounds[of r i xs st en caps] 3 show ?case by auto
qed

definition replaceAll :: "re \<Rightarrow> jsstring \<Rightarrow> jsstring \<Rightarrow> jsstring" where
  "replaceAll r tmpl str = replaceAllFrom r tmpl str 0 str"

text \<open>
  \<^verbatim>\<open>String.prototype.split\<close> with a pattern and no limit. \<open>q\<close> is the index tried, \<open>xs\<close> the
  input from \<open>q\<close> on, \<open>cur\<close> the input between the end \<open>p\<close> of the last separator and \<open>q\<close>.
  The patterns the source splits on have no capture groups, so no captures are spliced
  into the result.
\<close>

function splitLoop :: "re \<Rightarrow> nat \<Rightarrow> jsstring \<Rightarrow> jsstring \<Rightarrow> jsstring list" where
  "splitLoop r q cur xs =
     (case xs of
        [] \<Rightarrow> [cur]
      | x # xs' \<Rightarrow>
          (case rmatch r (q, xs, Map.empty) of
             [] \<Rightarrow> splitLoop r (Suc q) (cur @ [x]) xs'
           | (e, ys, _) # _ \<Rightarrow>
               if e = q \<and> cur = [] then splitLoop r (Suc q) (cur @ [x]) xs'
               else cur # splitLoop r e [] ys))"
  by pat_completeness auto
termination
proof (relation "measures [\<lambda>(r, q, cur, xs). length xs, \<lambda>(r, q, cur, xs). length cur]", goal_cases)
  case 1 show ?case by simp
next
  case 2 then show ?case by simp
next
  case 3 then show ?case by simp
next
  case (4 r q cur xs x xs' m ms e rest ys c)
  from rmatch_hd_bounds[of r q xs Map.empty e ys c ms] 4
  have "q \<le> e" "ys = drop (e - q) xs" by auto
  with 4 show ?case by (cases "e = q") auto
qed

definition splitRe :: "re \<Rightarrow> jsstring \<Rightarrow> jsstring list" where
  "splitRe r str =
     (if str = [] then (if rmatch r (0, [], Map.empty) = [] then [[]] else [])
      else splitLoop r 0 [] str)"

text \<open>\<^verbatim>\<open>String.prototype.split\<close> with a separator of one code unit.\<close>

fun splitCharLoop :: "cu \<Rightarrow> jsstring \<Rightarrow> jsstring \<Rightarrow> jsstring list" where
  "splitCharLoop sep cur [] = [cur]"
| "splitCharLoop sep cur (x # xs) =
     (if x = sep then cur # splitCharLoop sep [] xs else splitCharLoop sep (cur @ [x]) xs)"

definition splitChar :: "cu \<Rightarrow> jsstring \<Rightarrow> jsstring list" where
  "splitChar sep str = splitCharLoop sep [] str"

text \<open>\<^verbatim>\<open>Array.prototype.pop\<close>: the last element, \<^verbatim>\<open>undefined\<close> on the empty array.\<close>

definition pop :: "'a list \<Rightarrow> 'a option" where
  "pop xs = (if xs = [] then None else Some (last xs))"

text \<open>\<^verbatim>\<open>Array.prototype.join\<close>.\<close>

fun join :: "jsstring \<Rightarrow> jsstring list \<Rightarrow> jsstring" where
  "join sep [] = []"
| "join sep [x] = x"
| "join sep (x # y # ys) = x @ sep @ join sep (y # ys)"


section \<open>Exists.ts\<close>

datatype error = Error string

text \<open>\<^verbatim>\<open>/^\s*MATCH\s+/i\<close>\<close>

definition matchRegEx :: re where
  "matchRegEx = Seq Bol (Seq (Star isSpace) (lit_i ''MATCH'' (Plus isSpace)))"

text \<open>\<^verbatim>\<open>/WHERE\s+\(?(.*?)\)?$/i\<close>\<close>

definition whereRegEx :: re where
  "whereRegEx =
     lit_i ''WHERE'' (Seq (Plus isSpace) (Seq (Opt (Atom (isChar CHR ''(''))) 
       (Seq (Group 1 (LazyStar isDot)) (Seq (Opt (Atom (isChar CHR '')''))) Eol))))"

text \<open>\<^verbatim>\<open>/\s+AND\s+/i\<close>\<close>

definition andRegEx :: re where
  "andRegEx = Seq (Plus isSpace) (lit_i ''AND'' (Plus isSpace))"

text \<open>\<^verbatim>\<open>/\s*=\s*/\<close>\<close>

definition eqRegEx :: re where
  "eqRegEx = Seq (Star isSpace) (Seq (Atom (isChar CHR ''='')) (Star isSpace))"

text \<open>\<^verbatim>\<open>/:(\w+|`[^`]+`)\s*(?=\))/\<close>\<close>

definition labelRegEx :: re where
  "labelRegEx =
     Seq (Atom (isChar CHR '':''))
       (Seq (Group 1 (Alt (Plus isWordChar)
                          (Seq (Atom (isChar CHR ''`'')) (Seq (Plus (isNotChar CHR ''`'')) (Atom (isChar CHR ''`''))))))
         (Seq (Star isSpace) (Lookahead (Atom (isChar CHR '')'')))))"

text \<open>\<^verbatim>\<open>/\(\w+(:)/g\<close>\<close>

definition varRegEx :: re where
  "varRegEx = Seq (Atom (isChar CHR ''('')) (Seq (Plus isWordChar) (Group 1 (Atom (isChar CHR '':''))))"

text \<open>
  \<^verbatim>\<open>type CypherCondition = { [key: string]: string }\<close>: an object, here the list of its own
  properties in creation order.
\<close>

type_synonym CypherCondition = "(jsstring \<times> jsstring) list"

definition stripMatch :: "jsstring \<Rightarrow> jsstring" where
  "stripMatch cypherFragment = replaceFirst matchRegEx [] cypherFragment"

text \<open>\<^verbatim>\<open>whereMatch[1]\<close> of \<^verbatim>\<open>strippedMatch.match(whereRegEx)\<close>; \<open>None\<close> when it is null or undefined.\<close>

definition whereCapture :: "jsstring \<Rightarrow> jsstring option" where
  "whereCapture strippedMatch =
     (case exec whereRegEx 0 strippedMatch of
        None \<Rightarrow> None
      | Some (st, en, caps) \<Rightarrow> caps 1)"

definition parseCondition :: "jsstring \<Rightarrow> CypherCondition" where
  "parseCondition condition =
     (let parts = splitRe eqRegEx condition;
          key = (case parts of [] \<Rightarrow> [] | k # _ \<Rightarrow> k);
          val = (case parts of _ # v # _ \<Rightarrow> v | _ \<Rightarrow> []);
          strippedKey = pop (splitChar (CU CHR ''.'') key)
      in [(case strippedKey of Some k \<Rightarrow> k | None \<Rightarrow> ustr ''undefined'', val)])"

definition conditions :: "jsstring \<Rightarrow> CypherCondition list" where
  "conditions whereText = map parseCondition (splitRe andRegEx whereText)"

definition renderCondition :: "CypherCondition \<Rightarrow> jsstring" where
  "renderCondition cond =
     (let keys = map fst cond
      in if keys = [] then []
         else let key = hd keys
              in key @ ustr '': '' @ (case map_of cond key of Some v \<Rightarrow> v | None \<Rightarrow> ustr ''undefined''))"

definition properties :: "CypherCondition list \<Rightarrow> jsstring" where
  "properties conds = join (ustr '', '') (map renderCondition conds)"

definition injectProperties :: "jsstring \<Rightarrow> jsstring \<Rightarrow> jsstring" where
  "injectProperties props strippedMatch =
     replaceFirst labelRegEx (ustr ''$& { '' @ props @ ustr '' }'')
       (replaceFirst whereRegEx [] strippedMatch)"

definition stripVariables :: "jsstring \<Rightarrow> jsstring" where
  "stripVariables transformed = replaceAll varRegEx (ustr ''($1'') transformed"

definition transformCypherQuery :: "jsstring \<Rightarrow> error + jsstring" where
  "transformCypherQuery cypherFragment =
     (let strippedMatch = stripMatch cypherFragment
      in case whereCapture strippedMatch of
           None \<Rightarrow> Inl (Error ''No WHERE clause found.'')
         | Some w \<Rightarrow>
             if w = [] then Inl (Error ''No WHERE clause found.'')
             else Inr (stripVariables (injectProperties (properties (conditions w)) strippedMatch)))"

text \<open>
  Modelled from the spec: \<^verbatim>\<open>padBlock\<close> of \<^verbatim>\<open>utils/pad-block\<close> is imported by the source
  and not part of it. The spec gives it as the block indentation that prefixes every
  line of the text with one fixed prefix, a tab.
\<close>

definition padBlock :: "jsstring \<Rightarrow> jsstring" where
  "padBlock block =
     CU CHR 0x09 # concat (map (\<lambda>c. if c = CU CHR 0x0A then [c, CU CHR 0x09] else [c]) block)"

text \<open>
  The class: its one field is the root of the sub-query, of which \<^verbatim>\<open>getCypher\<close> uses the
  rendering method only.
\<close>

record 'env Exists =
  subQuery :: "'env \<Rightarrow> jsstring"

definition getCypher :: "'env Exists \<Rightarrow> 'env \<Rightarrow> jsstring" where
  "getCypher this env =
     (let subQueryStr = subQuery this env;
          paddedSubQuery = padBlock subQueryStr
      in case transformCypherQuery paddedSubQuery of
           Inr transformedSubQuery \<Rightarrow> ustr ''EXISTS (\<newline>'' @ transformedSubQuery @ ustr ''\<newline>)''
         | Inl e \<Rightarrow> ustr ''EXISTS {\<newline>'' @ paddedSubQuery @ ustr ''\<newline>)'')"

section \<open>Vocabulary of the properties\<close>

fun ciPrefix :: "string \<Rightarrow> jsstring \<Rightarrow> bool" where
  "ciPrefix [] xs = True"
| "ciPrefix (a # as) [] = False"
| "ciPrefix (a # as) (x # xs) = (ci a x \<and> ciPrefix as xs)"

definition failsOn :: "(cu \<Rightarrow> bool) \<Rightarrow> re \<Rightarrow> bool" where
  "failsOn p k = (\<forall>j y ys c. p y \<longrightarrow> rmatch k (j, y # ys, c) = [])"

text \<open>The separator \<^verbatim>\<open>\s*=\s*\<close> at the start of a string: its length.\<close>

definition eqSepLen :: "jsstring \<Rightarrow> nat option" where
  "eqSepLen xs =
     (case dropWhile isSpace xs of
        [] \<Rightarrow> None
      | y # ys \<Rightarrow>
          if y = CU CHR ''=''
          then Some (length (takeWhile isSpace xs) + 1 + length (takeWhile isSpace ys))
          else None)"

text \<open>The separator \<^verbatim>\<open>\s+AND\s+\<close> at the start of a string: its length.\<close>

definition andSepLen :: "jsstring \<Rightarrow> nat option" where
  "andSepLen xs =
     (let n = length (takeWhile isSpace xs); r = dropWhile isSpace xs
      in if 0 < n \<and> ciPrefix ''AND'' r \<and> 0 < length (takeWhile isSpace (drop 3 r))
         then Some (n + 3 + length (takeWhile isSpace (drop 3 r)))
         else None)"

text \<open>The last segment of a dotted key.\<close>

definition lastSegment :: "jsstring \<Rightarrow> jsstring" where
  "lastSegment s = rev (takeWhile (\<lambda>c. c \<noteq> CU CHR ''.'') (rev s))"

definition isAndWord :: "jsstring \<Rightarrow> bool" where
  "isAndWord v = (length v = 3 \<and> ciPrefix ''AND'' v)"

definition token :: "jsstring \<Rightarrow> bool" where
  "token s = (s \<noteq> [] \<and> list_all (\<lambda>c. \<not> isSpace c \<and> c \<noteq> CU CHR ''='') s)"

definition conditionText :: "jsstring \<times> jsstring \<times> jsstring \<Rightarrow> jsstring" where
  "conditionText t = (case t of (al, key, val) \<Rightarrow> al @ ustr ''.'' @ key @ ustr '' = '' @ val)"

definition simpleCondition :: "jsstring \<times> jsstring \<times> jsstring \<Rightarrow> bool" where
  "simpleCondition t =
     (case t of (al, key, val) \<Rightarrow>
        token al \<and> token key \<and> CU CHR ''.'' \<notin> set key \<and> token val \<and> \<not> isAndWord val)"

text \<open>A separator: white space, the word AND in any case, white space.\<close>

definition andSeparator :: "jsstring \<Rightarrow> bool" where
  "andSeparator sep = (andSepLen sep = Some (length sep))"

text \<open>The text captured by \<^verbatim>\<open>\(?(.*?)\)?$\<close>: one leading and one trailing parenthesis are dropped.\<close>

definition dropClosing :: "jsstring \<Rightarrow> jsstring" where
  "dropClosing z = (if z \<noteq> [] \<and> last z = CU CHR '')'' then butlast z else z)"

definition unwrap :: "jsstring \<Rightarrow> jsstring" where
  "unwrap r = dropClosing (if r \<noteq> [] \<and> hd r = CU CHR ''('' then tl r else r)"

text \<open>
  The pattern of the WHERE clause at the start of a string: the word WHERE in any case,
  white space, and no line terminator from the end of that white space on. The result
  is the text after the white space.
\<close>

definition whereTail :: "jsstring \<Rightarrow> jsstring option" where
  "whereTail xs =
     (if ciPrefix ''WHERE'' xs \<and> drop 5 xs \<noteq> [] \<and> isSpace (hd (drop 5 xs)) \<and>
         list_all isDot (dropWhile isSpace (drop 5 xs))
      then Some (dropWhile isSpace (drop 5 xs)) else None)"

definition closeRe :: re where
  "closeRe = Seq (Opt (Atom (isChar CHR '')''))) Eol"

definition captureRe :: re where
  "captureRe = Seq (Group 1 (LazyStar isDot)) closeRe"

definition tailRe :: re where
  "tailRe = Seq (Opt (Atom (isChar CHR ''(''))) captureRe"

text \<open>The first index, from the left, at which the pattern of the WHERE clause matches.\<close>

fun firstWhere :: "jsstring \<Rightarrow> (nat \<times> jsstring) option" where
  "firstWhere [] = None"
| "firstWhere (x # xs) =
     (case whereTail (x # xs) of
        Some r \<Rightarrow> Some (0, r)
      | None \<Rightarrow> (case firstWhere xs of None \<Rightarrow> None | Some (k, r) \<Rightarrow> Some (Suc k, r)))"

text \<open>The word WHERE, in any case, followed by white space, at the start and anywhere.\<close>

definition whereKeyword :: "jsstring \<Rightarrow> bool" where
  "whereKeyword xs = (ciPrefix ''WHERE'' xs \<and> drop 5 xs \<noteq> [] \<and> isSpace (hd (drop 5 xs)))"

fun hasWhereKeyword :: "jsstring \<Rightarrow> bool" where
  "hasWhereKeyword [] = False"
| "hasWhereKeyword (x # xs) = (whereKeyword (x # xs) \<or> hasWhereKeyword xs)"

text \<open>
  What \<^verbatim>\<open>/^\s*MATCH\s+/i\<close> removes: leading white space, the word MATCH in any case and the
  white space after it, when the fragment starts that way.
\<close>

definition afterMatch :: "jsstring \<Rightarrow> jsstring" where
  "afterMatch s =
     (let r = dropWhile isSpace s
      in if ciPrefix ''MATCH'' r \<and> drop 5 r \<noteq> [] \<and> isSpace (hd (drop 5 r))
         then dropWhile isSpace (drop 5 r) else s)"

text \<open>Block indentation does not create the keyword.\<close>

definition padLines :: "jsstring \<Rightarrow> jsstring" where
  "padLines block = concat (map (\<lambda>c. if c = CU CHR 0x0A then [c, CU CHR 0x09] else [c]) block)"

text \<open>
  A node reference with a variable at the start of a string: an opening parenthesis, one
  or more word characters and a colon. The result is its length.
\<close>

definition varRefLen :: "jsstring \<Rightarrow> nat option" where
  "varRefLen xs =
     (case xs of
        [] \<Rightarrow> None
      | x # ys \<Rightarrow>
          if x = CU CHR ''('' \<and> takeWhile isWordChar ys \<noteq> [] \<and>
             (case dropWhile isWordChar ys of [] \<Rightarrow> False | z # _ \<Rightarrow> z = CU CHR '':'')
          then Some (length (takeWhile isWordChar ys) + 2) else None)"

text \<open>Removing the variable of every node reference, scanning from the left.\<close>

function stripVarRefs :: "jsstring \<Rightarrow> jsstring" where
  "stripVarRefs [] = []"
| "stripVarRefs (x # xs) =
     (case varRefLen (x # xs) of
        Some n \<Rightarrow> ustr ''(:'' @ stripVarRefs (drop n (x # xs))
      | None \<Rightarrow> x # stripVarRefs xs)"
  by pat_completeness auto
termination
  by (relation "measure length") (auto simp: varRefLen_def split: if_splits)

text \<open>
  A label at the start of a string: a run of word characters, or one or more characters
  between two backticks. The result is its length.
\<close>

definition labelLen :: "jsstring \<Rightarrow> nat option" where
  "labelLen ys =
     (case ys of
        [] \<Rightarrow> None
      | y # zs \<Rightarrow>
          if isWordChar y then Some (length (takeWhile isWordChar ys))
          else if y = CU CHR ''`'' \<and> takeWhile (isNotChar CHR ''`'') zs \<noteq> [] \<and>
                  dropWhile (isNotChar CHR ''`'') zs \<noteq> []
               then Some (length (takeWhile (isNotChar CHR ''`'') zs) + 2)
               else None)"

text \<open>
  A label marker at the start of a string: a colon, a label, white space or none, and
  then a closing parenthesis. The result is the length up to that parenthesis.
\<close>

definition markerLen :: "jsstring \<Rightarrow> nat option" where
  "markerLen xs =
     (case xs of
        [] \<Rightarrow> None
      | x # ys \<Rightarrow>
          if x \<noteq> CU CHR '':'' then None
          else (case labelLen ys of
                  None \<Rightarrow> None
                | Some n \<Rightarrow>
                    (case dropWhile isSpace (drop n ys) of
                       [] \<Rightarrow> None
                     | z # _ \<Rightarrow>
                         if z = CU CHR '')''
                         then Some (1 + n + length (takeWhile isSpace (drop n ys)))
                         else None)))"

definition restRe :: re where
  "restRe = Seq (Star isSpace) (Lookahead (Atom (isChar CHR '')'')))"

definition quotedRe :: re where
  "quotedRe = Seq (Atom (isChar CHR ''`'')) (Seq (Plus (isNotChar CHR ''`'')) (Atom (isChar CHR ''`'')))"

text \<open>
  A replacement text in which no dollar sign starts a replacement pattern: it stands
  for itself.
\<close>

definition isSpecial :: "cu \<Rightarrow> bool" where
  "isSpecial d =
     (d = CU CHR ''$'' \<or> d = CU CHR ''&'' \<or> d = CU CHR ''`'' \<or> d = CU (CHR 0x27) \<or> isDigit d)"

fun literalTemplate :: "jsstring \<Rightarrow> bool" where
  "literalTemplate [] = True"
| "literalTemplate [c] = True"
| "literalTemplate (c # d # t) = (\<not> (c = CU CHR ''$'' \<and> isSpecial d) \<and> literalTemplate (d # t))"

text \<open>An identifier: one or more word characters.\<close>

definition ident :: "jsstring \<Rightarrow> bool" where
  "ident s = (s \<noteq> [] \<and> list_all isWordChar s)"

text \<open>
  A plain value: a token that is not the word AND, stands for itself in a replacement
  text, has no opening parenthesis and does not end with a closing one.
\<close>

definition plainValue :: "jsstring \<Rightarrow> bool" where
  "plainValue val =
     (token val \<and> \<not> isAndWord val \<and> literalTemplate val \<and>
      CU CHR ''('' \<notin> set val \<and> last val \<noteq> CU CHR '')'')"

text \<open>The rendered sub-query of the claim and the parts of its rewrite.\<close>

definition nodeText :: "jsstring \<Rightarrow> jsstring \<Rightarrow> jsstring" where
  "nodeText a lab = ustr ''('' @ a @ ustr '':'' @ lab @ ustr '')''"

subsection \<open>Conjunctions of equality conditions\<close>

text \<open>The word AND, each letter in either case.\<close>

definition andWord :: "jsstring \<Rightarrow> bool" where
  "andWord w = (w \<in> set (map ustr [''AND'', ''ANd'', ''AnD'', ''And'', ''aND'', ''aNd'', ''anD'', ''and'']))"

text \<open>A non-empty run of white space.\<close>

definition blank :: "jsstring \<Rightarrow> bool" where
  "blank s = (s \<noteq> [] \<and> list_all isSpace s)"

text \<open>What stands between two conditions: white space, the word AND, white space.\<close>

definition andGap :: "jsstring \<Rightarrow> bool" where
  "andGap sep =
     (blank (takeWhile isSpace sep) \<and> andWord (take 3 (dropWhile isSpace sep)) \<and>
      blank (drop 3 (dropWhile isSpace sep)))"

text \<open>The equals sign of a condition, with optional white space on both sides.\<close>

definition equalsSign :: "jsstring \<Rightarrow> bool" where
  "equalsSign e =
     (case dropWhile isSpace e of [] \<Rightarrow> False | y # ys \<Rightarrow> y = CU CHR ''='' \<and> list_all isSpace ys)"

text \<open>The word AND at the start of a text, ending there or before white space.\<close>

definition andWordAt :: "jsstring \<Rightarrow> bool" where
  "andWordAt x = (andWord (take 3 x) \<and> (drop 3 x = [] \<or> isSpace (hd (drop 3 x))))"

text \<open>The word AND stands neither at the start of the value nor after white space in it.\<close>

definition noAndWord :: "jsstring \<Rightarrow> bool" where
  "noAndWord v =
     (\<not> andWordAt v \<and>
      list_all (\<lambda>x. case x of [] \<Rightarrow> True | y # ys \<Rightarrow> \<not> (isSpace y \<and> andWordAt ys)) (suffixes v))"

text \<open>
  The right-hand side of a condition: not empty, with no white space at either end, no
  equals sign and no word AND; white space inside it is allowed.
\<close>

definition valueText :: "jsstring \<Rightarrow> bool" where
  "valueText v =
     (v \<noteq> [] \<and> \<not> isSpace (hd v) \<and> \<not> isSpace (last v) \<and> CU CHR ''='' \<notin> set v \<and> noAndWord v)"

text \<open>
  A condition \<^verbatim>\<open>alias.key = value\<close>: the alias, the key, the equals sign with its white
  space, and the value.
\<close>

type_synonym equality = "jsstring \<times> jsstring \<times> jsstring \<times> jsstring"

definition equalityText :: "equality \<Rightarrow> jsstring" where
  "equalityText t = (case t of (al, key, eq, val) \<Rightarrow> al @ ustr ''.'' @ key @ eq @ val)"

definition equality :: "equality \<Rightarrow> bool" where
  "equality t =
     (case t of (al, key, eq, val) \<Rightarrow>
        token al \<and> token key \<and> CU CHR ''.'' \<notin> set key \<and> equalsSign eq \<and> valueText val)"

text \<open>
  A conjunction: a first condition and further conditions, each after its own gap.
\<close>

definition conjunctionText :: "equality \<Rightarrow> (jsstring \<times> equality) list \<Rightarrow> jsstring" where
  "conjunctionText t ts = equalityText t @ concat (map (\<lambda>(sep, t'). sep @ equalityText t') ts)"

text \<open>The entry of the properties body for a condition.\<close>

definition keyValue :: "equality \<Rightarrow> jsstring" where
  "keyValue t = (case t of (al, key, eq, val) \<Rightarrow> key @ ustr '': '' @ val)"

section \<open>Matching and splitting\<close>

lemma rmatch_lit_i:
  "rmatch (lit_i w k) (i, xs, c) =
     (if ciPrefix w xs then rmatch k (i + length w, drop (length w) xs, c) else [])"
proof (induction w arbitrary: i xs)
  case Nil show ?case by simp
next
  case (Cons a as)
  show ?case
  proof (cases xs)
    case Nil then show ?thesis by simp
  next
    case (Cons x xs') then show ?thesis using Cons.IH[of "Suc i" xs'] by simp
  qed
qed

lemma star_greedy_hd:
  "\<exists>rest. star_greedy p (i, xs, c) = (i + length (takeWhile p xs), dropWhile p xs, c) # rest"
proof (induction xs arbitrary: i)
  case Nil show ?case by simp
next
  case (Cons x xs)
  show ?case
  proof (cases "p x")
    case True
    from Cons.IH[of "Suc i"] obtain rest where
      "star_greedy p (Suc i, xs, c) = (Suc i + length (takeWhile p xs), dropWhile p xs, c) # rest" ..
    with True show ?thesis by simp
  next
    case False then show ?thesis by simp
  qed
qed

lemma star_greedy_mem:
  "(j, ys, c') \<in> set (star_greedy p (i, xs, c)) \<Longrightarrow>
     \<exists>k \<le> length (takeWhile p xs). j = i + k \<and> ys = drop k xs \<and> c' = c"
proof (induction xs arbitrary: i)
  case Nil then show ?case by simp
next
  case (Cons x xs)
  show ?case
  proof (cases "(j, ys, c') = (i, x # xs, c)")
    case True then show ?thesis by (intro exI[of _ 0]) simp
  next
    case False
    with Cons.prems have px: "p x" and "(j, ys, c') \<in> set (star_greedy p (Suc i, xs, c))"
      by (auto split: if_splits)
    from Cons.IH[OF this(2)] obtain k where
      "k \<le> length (takeWhile p xs)" "j = Suc i + k" "ys = drop k xs" "c' = c" by blast
    with px show ?thesis by (intro exI[of _ "Suc k"]) simp
  qed
qed

lemma star_greedy_then:
  assumes "\<And>j y ys. p y \<Longrightarrow> f (j, y # ys, c) = []"
  shows "concat (map f (star_greedy p (i, xs, c))) =
           f (i + length (takeWhile p xs), dropWhile p xs, c)"
proof (induction xs arbitrary: i)
  case Nil show ?case by simp
next
  case (Cons x xs)
  show ?case
  proof (cases "p x")
    case True
    with Cons.IH[of "Suc i"] assms[of x i xs] show ?thesis by simp
  next
    case False then show ?thesis by simp
  qed
qed

lemma failsOnI: "(\<And>j y ys c. p y \<Longrightarrow> rmatch k (j, y # ys, c) = []) \<Longrightarrow> failsOn p k"
  by (simp add: failsOn_def)

lemma rmatch_Star_then:
  assumes "failsOn p k"
  shows "rmatch (Seq (Star p) k) (i, xs, c) =
           rmatch k (i + length (takeWhile p xs), dropWhile p xs, c)"
  using star_greedy_then[of p "rmatch k" c i xs] assms by (simp add: failsOn_def)

lemma rmatch_Plus_then:
  assumes "failsOn p k"
  shows "rmatch (Seq (Plus p) k) (i, xs, c) =
           (if xs \<noteq> [] \<and> p (hd xs)
            then rmatch k (i + length (takeWhile p xs), dropWhile p xs, c) else [])"
proof (cases xs)
  case Nil then show ?thesis by simp
next
  case (Cons x xs')
  show ?thesis
  proof (cases "p x")
    case True
    with Cons star_greedy_then[of p "rmatch k" c "Suc i" xs'] assms show ?thesis
      by (simp add: failsOn_def)
  next
    case False with Cons show ?thesis by simp
  qed
qed

lemma rmatch_Plus_Nil:
  "xs = [] \<or> \<not> p (hd xs) \<Longrightarrow> rmatch (Plus p) (i, xs, c) = []"
  by (cases xs) auto

lemma rmatch_Plus_Cons:
  assumes "xs \<noteq> []" "p (hd xs)"
  shows "\<exists>ms. rmatch (Plus p) (i, xs, c) = (i + length (takeWhile p xs), dropWhile p xs, c) # ms"
proof -
  from assms obtain x xs' where xs: "xs = x # xs'" and px: "p x" by (cases xs) auto
  from star_greedy_hd[of p "Suc i" xs' c] obtain rest where
    "star_greedy p (Suc i, xs', c) = (Suc i + length (takeWhile p xs'), dropWhile p xs', c) # rest" ..
  with xs px show ?thesis by simp
qed

lemma exec_here:
  "rmatch r (i, xs, Map.empty) = (j, ys, c) # ms \<Longrightarrow> exec r i xs = Some (i, j, c)"
  by (simp add: exec.simps)

lemma exec_skip:
  "rmatch r (i, x # xs, Map.empty) = [] \<Longrightarrow> exec r i (x # xs) = exec r (Suc i) xs"
  by (simp add: exec.simps)

lemma exec_Nil:
  "rmatch r (i, [], Map.empty) = [] \<Longrightarrow> exec r i [] = None"
  by (simp add: exec.simps)

lemma exec_skip_prefix:
  "(\<And>k. k < length pre \<Longrightarrow> rmatch r (i + k, drop k pre @ xs, Map.empty) = []) \<Longrightarrow>
     exec r i (pre @ xs) = exec r (i + length pre) xs"
proof (induction pre arbitrary: i)
  case Nil show ?case by simp
next
  case (Cons x pre)
  from Cons.prems[of 0] have "rmatch r (i, x # pre @ xs, Map.empty) = []" by simp
  then have "exec r i ((x # pre) @ xs) = exec r (Suc i) (pre @ xs)" by (simp add: exec_skip)
  also have "\<dots> = exec r (Suc i + length pre) xs"
  proof (rule Cons.IH)
    fix k assume "k < length pre"
    with Cons.prems[of "Suc k"] show "rmatch r (Suc i + k, drop k pre @ xs, Map.empty) = []" by simp
  qed
  finally show ?case by simp
qed

lemma exec_None_iff:
  "exec r i xs = None \<longleftrightarrow> (\<forall>k \<le> length xs. rmatch r (i + k, drop k xs, Map.empty) = [])"
proof (induction xs arbitrary: i)
  case Nil show ?case by (auto simp: exec.simps split: list.splits)
next
  case (Cons x xs)
  show ?case
  proof (cases "rmatch r (i, x # xs, Map.empty)")
    case Nil
    then have "exec r i (x # xs) = exec r (Suc i) xs" by (rule exec_skip)
    moreover have "(\<forall>k \<le> length (x # xs). rmatch r (i + k, drop k (x # xs), Map.empty) = []) \<longleftrightarrow>
       (\<forall>k \<le> length xs. rmatch r (Suc i + k, drop k xs, Map.empty) = [])" (is "?A \<longleftrightarrow> ?B")
    proof
      assume a: ?A show ?B proof (intro allI impI)
        fix k assume "k \<le> length xs" with a[rule_format, of "Suc k"] show "rmatch r (Suc i + k, drop k xs, Map.empty) = []" by simp qed
    next
      assume b: ?B show ?A proof (intro allI impI)
        fix k assume k: "k \<le> length (x # xs)"
        show "rmatch r (i + k, drop k (x # xs), Map.empty) = []"
        proof (cases k)
          case 0 with Nil show ?thesis by simp
        next
          case (Suc k') with k b[rule_format, of k'] show ?thesis by simp
        qed
      qed
    qed
    ultimately show ?thesis using Cons.IH[of "Suc i"] by simp
  next
    case (Cons m ms)
    then have "exec r i (x # xs) \<noteq> None" by (cases m) (simp add: exec.simps)
    moreover from Cons have "\<not> (\<forall>k \<le> length (x # xs). rmatch r (i + k, drop k (x # xs), Map.empty) = [])"
      by (auto intro!: exI[of _ 0])
    ultimately show ?thesis by blast
  qed
qed

lemma ci_letter:
  assumes "0x41 \<le> (of_char a :: cu)" "(of_char a :: cu) \<le> 0x5A"
  shows "ci a x \<longleftrightarrow> (x = of_char a \<or> x = of_char a + 0x20)"
  using assms unfolding ci_def canonicalize_def
  by (auto simp: word_le_nat_alt unat_sub_if' unat_word_ariths word_unat_eq_iff split: if_splits)

lemma ci_letter_word:
  assumes "0x41 \<le> (of_char a :: cu)" "(of_char a :: cu) \<le> 0x5A" "ci a x"
  shows "isWordChar x"
  using assms unfolding ci_letter[OF assms(1,2)] isWordChar_def
  by (auto simp: word_le_nat_alt unat_word_ariths)

lemma word_not_space: "isWordChar x \<Longrightarrow> \<not> isSpace x"
  unfolding isWordChar_def isSpace_def isLineTerminator_def
  by (auto simp: word_le_nat_alt)

lemma ci_letter_not_space:
  assumes "0x41 \<le> (of_char a :: cu)" "(of_char a :: cu) \<le> 0x5A" "ci a x"
  shows "\<not> isSpace x"
  using ci_letter_word[OF assms] by (rule word_not_space)

lemma not_space_lits [simp]:
  "\<not> isSpace 0x3D" "\<not> isSpace 0x28" "\<not> isSpace 0x29" "\<not> isSpace 0x3A" "\<not> isSpace 0x60"
  "\<not> isSpace 0x2E" "\<not> isSpace 0x24" "\<not> isSpace 0x7B" "\<not> isSpace 0x7D" "\<not> isSpace 0x2C"
  "isSpace 0x20" "isSpace 0x09" "isSpace 0x0A"
  by (simp_all add: isSpace_def isLineTerminator_def)

lemma takeWhile_pos: "0 < length (takeWhile p xs) \<longleftrightarrow> xs \<noteq> [] \<and> p (hd xs)"
  by (cases xs) auto

lemma drop_takeWhile_len: "drop (length (takeWhile p xs)) xs = dropWhile p xs"
  by (simp add: dropWhile_eq_drop)

lemma drop_add_takeWhile: "drop (n + length (takeWhile p (drop n xs))) xs = dropWhile p (drop n xs)"
proof -
  have "drop (n + length (takeWhile p (drop n xs))) xs = drop (length (takeWhile p (drop n xs))) (drop n xs)"
    by (simp add: add.commute)
  then show ?thesis by (simp only: drop_takeWhile_len)
qed

declare rmatch.simps(8) [simp del]

lemma eq_failsOn: "failsOn isSpace (Seq (Atom (isChar CHR ''='')) (Star isSpace))"
  by (rule failsOnI) (auto simp: isChar_def)

lemma rmatch_eqRegEx_None:
  assumes "eqSepLen xs = None"
  shows "rmatch eqRegEx (i, xs, c) = []"
proof (cases "dropWhile isSpace xs")
  case Nil
  show ?thesis unfolding eqRegEx_def rmatch_Star_then[OF eq_failsOn] Nil by simp
next
  case (Cons y ys)
  with assms have "y \<noteq> CU CHR ''=''" by (auto simp: eqSepLen_def split: if_splits)
  then show ?thesis
    unfolding eqRegEx_def rmatch_Star_then[OF eq_failsOn] Cons by (simp add: isChar_def)
qed

lemma rmatch_eqRegEx_Some:
  assumes "eqSepLen xs = Some n"
  shows "\<exists>ms. rmatch eqRegEx (i, xs, c) = (i + n, drop n xs, c) # ms"
proof -
  let ?n = "length (takeWhile isSpace xs)"
  from assms obtain ys where d: "dropWhile isSpace xs = CU CHR ''='' # ys"
    and n: "n = ?n + 1 + length (takeWhile isSpace ys)"
    by (auto simp: eqSepLen_def split: list.splits if_splits)
  have "drop (Suc ?n) xs = drop 1 (drop ?n xs)" by simp
  also have "\<dots> = ys" by (simp only: drop_takeWhile_len d) simp
  finally have ys: "drop (Suc ?n) xs = ys" .
  have dn: "drop n xs = dropWhile isSpace ys"
    using drop_add_takeWhile[of "Suc ?n" isSpace xs] by (simp add: ys n)
  from star_greedy_hd[of isSpace "Suc (i + ?n)" ys c]
  obtain rest where "star_greedy isSpace (Suc (i + ?n), ys, c) =
     (Suc (i + ?n) + length (takeWhile isSpace ys), dropWhile isSpace ys, c) # rest" ..
  then show ?thesis
    unfolding eqRegEx_def rmatch_Star_then[OF eq_failsOn]
    by (simp add: d isChar_def dn[symmetric] n)
qed

lemma ci_A: "ci CHR ''A'' x \<Longrightarrow> \<not> isSpace x"
  by (rule ci_letter_not_space[of "CHR ''A''"]) simp_all

lemma rmatch_lit_AND:
  "rmatch (lit_i ''AND'' k) (i, xs, c) =
     (if ciPrefix ''AND'' xs then rmatch k (i + 3, drop 3 xs, c) else [])"
  unfolding rmatch_lit_i by (simp add: eval_nat_numeral)

lemma and_failsOn: "failsOn isSpace (lit_i ''AND'' (Plus isSpace))"
proof (rule failsOnI)
  fix j y ys c assume "isSpace y"
  with ci_A[of y] show "rmatch (lit_i ''AND'' (Plus isSpace)) (j, y # ys, c) = []"
    by (auto simp: rmatch_lit_i)
qed

lemma rmatch_andRegEx_None:
  assumes "andSepLen xs = None"
  shows "rmatch andRegEx (i, xs, c) = []"
proof -
  let ?r = "dropWhile isSpace xs"
  have "rmatch (Plus isSpace) (j, drop 3 ?r, c) = []"
    if "xs \<noteq> []" "isSpace (hd xs)" "ciPrefix ''AND'' ?r" for j
  proof (rule rmatch_Plus_Nil)
    from that assms show "drop 3 ?r = [] \<or> \<not> isSpace (hd (drop 3 ?r))"
      by (auto simp: andSepLen_def Let_def takeWhile_eq_Nil_iff split: if_splits)
  qed
  then show ?thesis
    unfolding andRegEx_def rmatch_Plus_then[OF and_failsOn] rmatch_lit_AND by simp
qed

lemma rmatch_andRegEx_Some:
  assumes "andSepLen xs = Some n"
  shows "\<exists>ms. rmatch andRegEx (i, xs, c) = (i + n, drop n xs, c) # ms"
proof -
  let ?n = "length (takeWhile isSpace xs)"
  let ?r = "dropWhile isSpace xs"
  let ?m = "length (takeWhile isSpace (drop 3 ?r))"
  from assms have a: "0 < ?n" "ciPrefix ''AND'' ?r" "0 < ?m" and n: "n = ?n + 3 + ?m"
    by (auto simp: andSepLen_def Let_def split: if_splits)
  have r3: "drop 3 ?r = drop (?n + 3) xs"
    by (simp add: drop_takeWhile_len[symmetric] add.commute)
  have dn: "drop n xs = dropWhile isSpace (drop 3 ?r)"
    using drop_add_takeWhile[of "?n + 3" isSpace xs] by (simp only: r3 n)
  from a(3)[unfolded takeWhile_pos] have ne: "drop 3 ?r \<noteq> []" "isSpace (hd (drop 3 ?r))" by blast+
  from a(1)[unfolded takeWhile_pos] have ne0: "xs \<noteq> []" "isSpace (hd xs)" by blast+
  have "rmatch andRegEx (i, xs, c) = rmatch (Plus isSpace) (i + ?n + 3, drop 3 ?r, c)"
    unfolding andRegEx_def rmatch_Plus_then[OF and_failsOn] rmatch_lit_AND
    using a(2) ne0 by (simp add: add.assoc)
  moreover from rmatch_Plus_Cons[of "drop 3 ?r" isSpace "i + ?n + 3" c, OF ne] obtain ms where
    "rmatch (Plus isSpace) (i + ?n + 3, drop 3 ?r, c) = (i + ?n + 3 + ?m, dropWhile isSpace (drop 3 ?r), c) # ms"
    by blast
  ultimately show ?thesis unfolding dn by (simp add: n add.assoc)
qed

declare splitLoop.simps [simp del] replaceAllFrom.simps [simp del]

lemma rev_takeWhile_all:
  "sep \<notin> set s \<Longrightarrow> rev (takeWhile (\<lambda>c. c \<noteq> sep) (rev s)) = s"
proof -
  assume "sep \<notin> set s"
  then have "\<forall>x \<in> set (rev s). x \<noteq> sep" by auto
  then have "takeWhile (\<lambda>c. c \<noteq> sep) (rev s) = rev s"
    by (rule takeWhile_eq_all_conv[THEN iffD2])
  then show ?thesis by (simp only: rev_rev_ident)
qed

lemma splitLoop_Nil: "splitLoop r q cur [] = [cur]"
  by (simp add: splitLoop.simps)

lemma splitLoop_skip:
  "rmatch r (q, x # xs, Map.empty) = [] \<Longrightarrow>
     splitLoop r q cur (x # xs) = splitLoop r (Suc q) (cur @ [x]) xs"
  by (subst splitLoop.simps) simp

lemma splitLoop_sep:
  "rmatch r (q, x # xs, Map.empty) = (e, ys, c) # ms \<Longrightarrow> e \<noteq> q \<Longrightarrow>
     splitLoop r q cur (x # xs) = cur # splitLoop r e [] ys"
  by (subst splitLoop.simps) simp

lemma splitLoop_last:
  assumes "\<And>x q'. suffix x u \<Longrightarrow> x \<noteq> [] \<Longrightarrow> rmatch r (q', x, Map.empty) = []"
  shows "splitLoop r q cur u = [cur @ u]"
  using assms
proof (induction u arbitrary: q cur)
  case Nil show ?case by (simp add: splitLoop_Nil)
next
  case (Cons x u)
  have "rmatch r (q, x # u, Map.empty) = []" by (rule Cons.prems) simp_all
  then have "splitLoop r q cur (x # u) = splitLoop r (Suc q) (cur @ [x]) u" by (rule splitLoop_skip)
  also have "\<dots> = [(cur @ [x]) @ u]"
    by (rule Cons.IH) (auto intro: Cons.prems simp: suffix_Cons)
  finally show ?case by simp
qed

lemma splitLoop_piece:
  assumes "\<And>x q'. suffix x u \<Longrightarrow> x \<noteq> [] \<Longrightarrow> rmatch r (q', x @ sep @ rest, Map.empty) = []"
    and "\<And>q'. \<exists>ms c. rmatch r (q', sep @ rest, Map.empty) = (q' + length sep, rest, c) # ms"
    and "sep \<noteq> []"
  shows "splitLoop r q cur (u @ sep @ rest) =
           (cur @ u) # splitLoop r (q + length u + length sep) [] rest"
  using assms(1)
proof (induction u arbitrary: q cur)
  case Nil
  from assms(2)[of q] obtain ms c where
    m: "rmatch r (q, sep @ rest, Map.empty) = (q + length sep, rest, c) # ms" by blast
  from assms(3) obtain y ys where s: "sep @ rest = y # ys" by (cases sep) auto
  from assms(3) have "q + length sep \<noteq> q" by simp
  from splitLoop_sep[OF m[unfolded s] this, of cur] show ?case by (simp add: s)
next
  case (Cons x u)
  have "rmatch r (q, (x # u) @ sep @ rest, Map.empty) = []" by (rule Cons.prems) simp_all
  then have "splitLoop r q cur ((x # u) @ sep @ rest) =
       splitLoop r (Suc q) (cur @ [x]) (u @ sep @ rest)" by (simp add: splitLoop_skip)
  also have "\<dots> = ((cur @ [x]) @ u) # splitLoop r (Suc q + length u + length sep) [] rest"
    by (rule Cons.IH) (auto intro: Cons.prems simp: suffix_Cons)
  finally show ?case by simp
qed

lemma splitLoop_not_Nil: "splitLoop r q cur xs \<noteq> []"
proof (induction r q cur xs rule: splitLoop.induct)
  case (1 r q cur xs)
  show ?case
  proof (cases xs)
    case Nil then show ?thesis by (simp add: splitLoop_Nil)
  next
    case (Cons x xs')
    show ?thesis
    proof (cases "rmatch r (q, xs, Map.empty)")
      case Nil
      with Cons 1(1)[of x xs'] show ?thesis by (subst splitLoop.simps) simp
    next
      case (Cons m ms)
      obtain e ys c where m: "m = (e, ys, c)" by (cases m)
      show ?thesis
      proof (cases "e = q \<and> cur = []")
        case True
        with \<open>xs = x # xs'\<close> Cons m 1(2)[of x xs' m ms e "(ys, c)" ys c] show ?thesis
          by (subst splitLoop.simps) simp
      next
        case False
        with \<open>xs = x # xs'\<close> Cons m show ?thesis
          by (subst splitLoop.simps) auto
      qed
    qed
  qed
qed

lemma andRegEx_not_empty: "rmatch andRegEx (i, [], c) = []"
  by (rule rmatch_andRegEx_None) (simp add: andSepLen_def)

lemma eqRegEx_not_empty: "rmatch eqRegEx (i, [], c) = []"
  by (rule rmatch_eqRegEx_None) (simp add: eqSepLen_def)

lemma splitRe_and_not_Nil: "splitRe andRegEx w \<noteq> []"
  by (simp add: splitRe_def andRegEx_not_empty splitLoop_not_Nil)

lemma splitRe_eq_not_Nil: "splitRe eqRegEx w \<noteq> []"
  by (simp add: splitRe_def eqRegEx_not_empty splitLoop_not_Nil)

lemma splitCharLoop_not_Nil: "splitCharLoop sep cur xs \<noteq> []"
  by (induction xs arbitrary: cur) auto

lemma last_splitCharLoop:
  "last (splitCharLoop sep cur s) =
     (if sep \<in> set s then rev (takeWhile (\<lambda>c. c \<noteq> sep) (rev s)) else cur @ s)"
proof (induction s arbitrary: cur)
  case Nil show ?case by simp
next
  case (Cons x s)
  show ?case
  proof (cases "x = sep")
    case True
    then show ?thesis using Cons.IH[of "[]"] splitCharLoop_not_Nil[of sep "[]" s]
      by (auto simp: takeWhile_append)
  next
    case False
    then show ?thesis using Cons.IH[of "cur @ [x]"]
      by (auto simp: takeWhile_append)
  qed
qed

lemma pop_splitChar:
  "pop (splitChar (CU CHR ''.'') s) = Some (lastSegment s)"
  "pop (splitChar 0x2E s) = Some (lastSegment s)"
  by (auto simp: pop_def splitChar_def splitCharLoop_not_Nil last_splitCharLoop lastSegment_def
      rev_takeWhile_all)

lemma lastSegment_no_dot: "CU CHR ''.'' \<notin> set (lastSegment s)"
  unfolding lastSegment_def using set_takeWhileD[of "CU CHR ''.''" "\<lambda>c. c \<noteq> CU CHR ''.''" "rev s"]
  by auto

lemma lastSegment_append:
  "CU CHR ''.'' \<notin> set k \<Longrightarrow> lastSegment (a @ CU CHR ''.'' # k) = k"
  using rev_takeWhile_all[of "CU CHR ''.''" k]
  by (simp add: lastSegment_def takeWhile_append)

lemma lastSegment_plain: "CU CHR ''.'' \<notin> set k \<Longrightarrow> lastSegment k = k"
  using rev_takeWhile_all[of "CU CHR ''.''" k] by (simp add: lastSegment_def)

lemma hd_dropWhile_mem: "dropWhile p xs = y # ys \<Longrightarrow> y \<in> set xs"
  using set_dropWhileD[of y p xs] by simp

lemma eqSepLen_None_no_eq:
  assumes "CU CHR ''='' \<notin> set x"
  shows "eqSepLen x = None"
proof (cases "dropWhile isSpace x")
  case Nil show ?thesis unfolding eqSepLen_def Nil by simp
next
  case (Cons y ys)
  from hd_dropWhile_mem[OF Cons] assms have "y \<noteq> CU CHR ''=''" by auto
  then show ?thesis unfolding eqSepLen_def Cons by simp
qed

lemma not_space_letters [simp]:
  "\<not> isSpace 0x41" "\<not> isSpace 0x4E" "\<not> isSpace 0x44" "\<not> isSpace 0x61" "\<not> isSpace 0x6E" "\<not> isSpace 0x64"
  by (simp_all add: isSpace_def isLineTerminator_def)

lemma eqSepLen_None_hd:
  "x \<noteq> [] \<Longrightarrow> \<not> isSpace (hd x) \<Longrightarrow> hd x \<noteq> CU CHR ''='' \<Longrightarrow> eqSepLen (x @ rest) = None"
  by (cases x) (auto simp: eqSepLen_def)

lemma eqSepLen_sep:
  "v = [] \<or> \<not> isSpace (hd v) \<Longrightarrow> eqSepLen (ustr '' = '' @ v) = Some 3"
  by (cases v) (auto simp: eqSepLen_def ustr_def)

lemma andSepLen_None_hd:
  "x \<noteq> [] \<Longrightarrow> \<not> isSpace (hd x) \<Longrightarrow> andSepLen (x @ rest) = None"
  by (cases x) (auto simp: andSepLen_def)

lemma ci_A_iff: "ci CHR ''A'' x \<longleftrightarrow> x = 0x41 \<or> x = 0x61"
  using ci_letter[of "CHR ''A''" x] by simp

lemma ci_N_iff: "ci CHR ''N'' x \<longleftrightarrow> x = 0x4E \<or> x = 0x6E"
  using ci_letter[of "CHR ''N''" x] by simp

lemma ci_D_iff: "ci CHR ''D'' x \<longleftrightarrow> x = 0x44 \<or> x = 0x64"
  using ci_letter[of "CHR ''D''" x] by simp

lemma ci_N: "ci CHR ''N'' x \<Longrightarrow> \<not> isSpace x"
  by (rule ci_letter_not_space[of "CHR ''N''"]) simp_all

lemma ci_D: "ci CHR ''D'' x \<Longrightarrow> \<not> isSpace x"
  by (rule ci_letter_not_space[of "CHR ''D''"]) simp_all

lemma andSepLen_eq: "andSepLen (ustr '' = '' @ rest) = None"
  by (auto simp: andSepLen_def ustr_def Let_def ci_A_iff)

lemma list4_cases:
  obtains "v = []" | a where "v = [a]" | a b where "v = [a, b]" | a b c where "v = [a, b, c]"
    | a b c d r where "v = a # b # c # d # r"
proof (cases v)
  case Nil then show ?thesis using that by blast
next
  case (Cons a v1)
  show ?thesis
  proof (cases v1)
    case Nil with Cons show ?thesis using that by blast
  next
    case (Cons b v2)
    note c2 = this
    show ?thesis
    proof (cases v2)
      case Nil with c2 \<open>v = a # v1\<close> show ?thesis using that by blast
    next
      case (Cons c v3)
      with c2 \<open>v = a # v1\<close> show ?thesis using that by (cases v3) blast+
    qed
  qed
qed

lemma andSepLen_space_val:
  assumes "v \<noteq> []" "\<forall>c \<in> set v. \<not> isSpace c" "\<not> isAndWord v" "tail = [] \<or> isSpace (hd tail)"
  shows "andSepLen (CU CHR '' '' # v @ tail) = None"
proof (cases v rule: list4_cases)
  case 1
  with assms(1) show ?thesis by simp
next
  case (2 a)
  with assms show ?thesis
    by (cases tail) (auto simp: andSepLen_def Let_def dest: ci_A ci_N ci_D)
next
  case (3 a b)
  with assms show ?thesis
    by (cases tail) (auto simp: andSepLen_def Let_def dest: ci_A ci_N ci_D)
next
  case (4 a b c)
  with assms show ?thesis
    by (auto simp: andSepLen_def Let_def isAndWord_def)
next
  case (5 a b c d r)
  with assms show ?thesis
    by (auto simp: andSepLen_def Let_def)
qed

lemma andSepLen_sep:
  "rest = [] \<or> \<not> isSpace (hd rest) \<Longrightarrow> andSepLen (ustr '' AND '' @ rest) = Some 5"
  by (cases rest) (auto simp: andSepLen_def ustr_def Let_def ci_A_iff ci_N_iff ci_D_iff)

lemma tokenD: "token s \<Longrightarrow> c \<in> set s \<Longrightarrow> \<not> isSpace c \<and> c \<noteq> CU CHR ''=''"
  by (auto simp: token_def list_all_iff)

lemma token_not_Nil: "token s \<Longrightarrow> s \<noteq> []"
  by (simp add: token_def)

lemma token_hd: "token s \<Longrightarrow> \<not> isSpace (hd s) \<and> hd s \<noteq> CU CHR ''=''"
  using tokenD[of s "hd s"] token_not_Nil[of s] by (cases s) auto

lemma suffix_hd_mem: "suffix x u \<Longrightarrow> x \<noteq> [] \<Longrightarrow> hd x \<in> set u"
  using set_mono_suffix[of x u] by (cases x) auto

lemma parseCondition_eq:
  "parseCondition c =
     [(lastSegment (case splitRe eqRegEx c of [] \<Rightarrow> [] | k # _ \<Rightarrow> k),
       case splitRe eqRegEx c of _ # v # _ \<Rightarrow> v | _ \<Rightarrow> [])]"
  by (simp add: parseCondition_def Let_def pop_splitChar)

lemma splitRe_eq_no_eq:
  assumes "CU CHR ''='' \<notin> set c"
  shows "splitRe eqRegEx c = [c]"
proof (cases "c = []")
  case True then show ?thesis by (simp add: splitRe_def eqRegEx_not_empty)
next
  case False
  have "splitLoop eqRegEx 0 [] c = [[] @ c]"
  proof (rule splitLoop_last)
    fix x q' assume "suffix x c" "x \<noteq> []"
    with assms have "CU CHR ''='' \<notin> set x" using set_mono_suffix[of x c] by auto
    then show "rmatch eqRegEx (q', x, Map.empty) = []"
      by (intro rmatch_eqRegEx_None eqSepLen_None_no_eq)
  qed
  with False show ?thesis by (simp add: splitRe_def)
qed

lemma parseCondition_no_eq:
  "CU CHR ''='' \<notin> set c \<Longrightarrow> parseCondition c = [(lastSegment c, [])]"
  by (simp add: parseCondition_eq splitRe_eq_no_eq)

lemma splitRe_eq_simple:
  assumes p: "p \<noteq> []" "\<forall>c \<in> set p. \<not> isSpace c \<and> c \<noteq> CU CHR ''=''"
    and v: "\<forall>c \<in> set v. \<not> isSpace c \<and> c \<noteq> CU CHR ''=''"
  shows "splitRe eqRegEx (p @ ustr '' = '' @ v) = [p, v]"
proof -
  have "splitLoop eqRegEx 0 [] (p @ ustr '' = '' @ v) =
          ([] @ p) # splitLoop eqRegEx (0 + length p + length (ustr '' = '')) [] v"
  proof (rule splitLoop_piece)
    fix x q' assume x: "suffix x p" "x \<noteq> []"
    from suffix_hd_mem[OF x] p(2) have "\<not> isSpace (hd x)" "hd x \<noteq> CU CHR ''=''" by auto
    with x(2) show "rmatch eqRegEx (q', x @ ustr '' = '' @ v, Map.empty) = []"
      by (intro rmatch_eqRegEx_None eqSepLen_None_hd)
  next
    fix q'
    from v have "v = [] \<or> \<not> isSpace (hd v)" by (cases v) auto
    from rmatch_eqRegEx_Some[OF eqSepLen_sep[OF this], of q' Map.empty]
    show "\<exists>ms c. rmatch eqRegEx (q', ustr '' = '' @ v, Map.empty) =
            (q' + length (ustr '' = ''), v, c) # ms"
      by (auto simp: ustr_def)
  next
    show "ustr '' = '' \<noteq> []" by (simp add: ustr_def)
  qed
  moreover have "splitLoop eqRegEx q [] v = [[] @ v]" for q
  proof (rule splitLoop_last)
    fix x q' assume x: "suffix x v" "x \<noteq> []"
    from suffix_hd_mem[OF x] v have "\<not> isSpace (hd x)" "hd x \<noteq> CU CHR ''=''" by auto
    with x(2) eqSepLen_None_hd[of x "[]"] show "rmatch eqRegEx (q', x, Map.empty) = []"
      by (intro rmatch_eqRegEx_None) simp
  qed
  ultimately show ?thesis using p(1) by (simp add: splitRe_def)
qed

lemma parseCondition_simple:
  assumes "\<forall>c \<in> set al. \<not> isSpace c \<and> c \<noteq> CU CHR ''=''"
    and "\<forall>c \<in> set key. \<not> isSpace c \<and> c \<noteq> CU CHR ''='' \<and> c \<noteq> CU CHR ''.''"
    and "\<forall>c \<in> set v. \<not> isSpace c \<and> c \<noteq> CU CHR ''=''"
  shows "parseCondition (al @ ustr ''.'' @ key @ ustr '' = '' @ v) = [(key, v)]"
proof -
  let ?p = "al @ ustr ''.'' @ key"
  have "splitRe eqRegEx (?p @ ustr '' = '' @ v) = [?p, v]"
    using assms by (intro splitRe_eq_simple) (auto simp: ustr_def)
  moreover have "lastSegment ?p = key"
    using assms(2) lastSegment_append[of key al] by (auto simp: ustr_def)
  ultimately show ?thesis by (simp add: parseCondition_eq)
qed

lemma parseCondition_conditionText:
  "simpleCondition (al, key, v) \<Longrightarrow> parseCondition (conditionText (al, key, v)) = [(key, v)]"
  unfolding conditionText_def simpleCondition_def split_conv
  by (intro parseCondition_simple) (auto dest: tokenD)

lemma renderCondition_single: "renderCondition [(k, v)] = k @ ustr '': '' @ v"
  by (simp add: renderCondition_def)

lemma suffix_mid_cases:
  assumes "suffix x (p @ a # b # c # v)"
  obtains "suffix x v" | "x = c # v" | "x = b # c # v" | "x = a # b # c # v"
    | p' where "suffix p' p" "p' \<noteq> []" "x = p' @ a # b # c # v"
  using assms unfolding suffix_append by (auto simp: suffix_Cons)

lemma andSepLen_in_condition:
  assumes "simpleCondition t" "suffix x (conditionText t)" "x \<noteq> []"
    and "tail = [] \<or> isSpace (hd tail)"
  shows "andSepLen (x @ tail) = None"
proof -
  obtain al key v where t: "t = (al, key, v)" by (cases t)
  let ?p = "al @ ustr ''.'' @ key"
  from assms(1) t have tk: "token al" "token key" "token v" "\<not> isAndWord v"
    by (auto simp: simpleCondition_def)
  have p: "\<forall>c \<in> set ?p. \<not> isSpace c" using tk by (auto simp: ustr_def dest: tokenD)
  have v: "\<forall>c \<in> set v. \<not> isSpace c" "v \<noteq> []" using tk by (auto dest: tokenD token_not_Nil)
  have u: "conditionText t = ?p @ (CU CHR '' '' # CU CHR ''='' # CU CHR '' '' # v)"
    by (simp add: t conditionText_def ustr_def)
  from assms(2)[unfolded u]
  show ?thesis
  proof (cases rule: suffix_mid_cases)
    case 1
    note inv = this
    from suffix_hd_mem[OF inv assms(3)] v have "\<not> isSpace (hd x)" by auto
    with assms(3) show ?thesis by (rule andSepLen_None_hd)
  next
    case 2
    note sv = this
    from andSepLen_space_val[OF v(2) v(1) tk(4) assms(4)] show ?thesis by (simp add: sv)
  next
    case 3
    then show ?thesis using andSepLen_None_hd[of x tail] by simp
  next
    case 4
    note sesv = this
    then show ?thesis using andSepLen_eq[of "v @ tail"] by (simp add: ustr_def)
  next
    case (5 p')
    note inp = this
    from suffix_hd_mem[OF inp(1,2)] p have "\<not> isSpace (hd p')" by auto
    with inp(2) have "\<not> isSpace (hd x)" by (simp add: inp(3))
    with assms(3) show ?thesis by (rule andSepLen_None_hd)
  qed
qed

lemma conditionText_hd:
  assumes "simpleCondition t"
  shows "conditionText t \<noteq> [] \<and> \<not> isSpace (hd (conditionText t))"
proof -
  obtain al key v where t: "t = (al, key, v)" by (cases t)
  with assms have "token al" by (simp add: simpleCondition_def)
  from token_not_Nil[OF this] token_hd[OF this] show ?thesis
    by (simp add: t conditionText_def)
qed

lemma join_hd:
  "cs \<noteq> [] \<Longrightarrow> \<forall>t \<in> set cs. simpleCondition t \<Longrightarrow>
     join sep (map conditionText cs) \<noteq> [] \<and> \<not> isSpace (hd (join sep (map conditionText cs)))"
proof (cases cs)
  case Nil assume "cs \<noteq> []" with Nil show ?thesis by simp
next
  case (Cons t ts)
  assume "\<forall>t \<in> set cs. simpleCondition t"
  with Cons conditionText_hd[of t] show ?thesis by (cases ts) auto
qed

lemma ciPrefix_append: "ciPrefix w xs \<Longrightarrow> ciPrefix w (xs @ ys)"
  by (induction w xs rule: ciPrefix.induct) auto

lemma ciPrefix_length: "ciPrefix w xs \<Longrightarrow> length w \<le> length xs"
  by (induction w xs rule: ciPrefix.induct) auto

lemma takeWhile_all_length: "length (takeWhile p xs) = length xs \<Longrightarrow> \<forall>x \<in> set xs. p x"
  by (metis takeWhile_eq_take take_all_iff order_refl takeWhile_eq_all_conv)

lemma andSeparator_hd: "andSeparator sep \<Longrightarrow> sep \<noteq> [] \<and> isSpace (hd sep)"
  by (auto simp: andSeparator_def andSepLen_def Let_def takeWhile_eq_Nil_iff split: if_splits)

lemma andSepLen_separator:
  assumes "andSeparator sep" "rest = [] \<or> \<not> isSpace (hd rest)"
  shows "andSepLen (sep @ rest) = Some (length sep)"
proof -
  let ?w = "takeWhile isSpace sep"
  let ?r = "dropWhile isSpace sep"
  let ?m = "takeWhile isSpace (drop 3 ?r)"
  from assms(1) have a: "?w \<noteq> []" "ciPrefix ''AND'' ?r" "?m \<noteq> []"
    and len: "length sep = length ?w + 3 + length ?m"
    by (auto simp: andSeparator_def andSepLen_def Let_def split: if_splits)
  from ciPrefix_length[OF a(2)] have r3: "3 \<le> length ?r" by simp
  have "length (?w @ ?r) = length ?w + length ?r" by (rule length_append)
  then have "length sep = length ?w + length ?r" by (simp only: takeWhile_dropWhile_id)
  with len r3 have "length ?m = length ?r - 3" by linarith
  then have lm: "length ?m = length (drop 3 ?r)" by (simp only: length_drop)
  then have all: "\<forall>x \<in> set (drop 3 ?r). isSpace x" by (rule takeWhile_all_length)
  from r3 have "0 < length ?r" by linarith
  then have rne: "?r \<noteq> []" using length_greater_0_conv by blast
  then have nsp: "\<not> isSpace (hd ?r)" using hd_dropWhile[of isSpace sep] by simp
  have tw: "takeWhile isSpace (sep @ rest) = ?w"
  proof -
    have "takeWhile isSpace (?w @ (?r @ rest)) = ?w @ takeWhile isSpace (?r @ rest)"
      by (rule takeWhile_append2) (auto dest: set_takeWhileD)
    moreover from rne nsp have "takeWhile isSpace (?r @ rest) = []" by (cases ?r) auto
    ultimately show ?thesis by (simp only: append_assoc[symmetric] takeWhile_dropWhile_id append_Nil2)
  qed
  have dw: "dropWhile isSpace (sep @ rest) = ?r @ rest"
  proof -
    have "dropWhile isSpace (sep @ rest) = drop (length ?w) (sep @ rest)"
      using dropWhile_eq_drop[of isSpace "sep @ rest"] by (simp only: tw)
    also have "\<dots> = drop (length ?w) sep @ rest" by (simp add: length_takeWhile_le)
    finally show ?thesis by (simp only: drop_takeWhile_len)
  qed
  have d3: "drop 3 (?r @ rest) = drop 3 ?r @ rest" using r3 by simp
  have m: "takeWhile isSpace (drop 3 ?r @ rest) = drop 3 ?r"
  proof -
    have "takeWhile isSpace (drop 3 ?r @ rest) = drop 3 ?r @ takeWhile isSpace rest"
      using all by (intro takeWhile_append2) blast
    moreover from assms(2) have "takeWhile isSpace rest = []" by (cases rest) auto
    ultimately show ?thesis by (simp only: append_Nil2)
  qed
  from a(1) have c1: "0 < length ?w" using length_greater_0_conv by blast
  from a(2) have c2: "ciPrefix ''AND'' (?r @ rest)" by (rule ciPrefix_append)
  from a(3) have "0 < length ?m" using length_greater_0_conv by blast
  with lm have c3: "0 < length (drop 3 ?r)" by (simp only:)
  from len lm have c4: "length ?w + 3 + length (drop 3 ?r) = length sep" by (simp only:)
  show ?thesis
    unfolding andSepLen_def Let_def tw dw d3 m
    by (simp only: c1 c2 c3 c4 simp_thms if_True)
qed

lemma splitLoop_and_conditions:
  assumes sep: "andSeparator sep"
  shows "cs \<noteq> [] \<Longrightarrow> \<forall>t \<in> set cs. simpleCondition t \<Longrightarrow>
     splitLoop andRegEx q [] (join sep (map conditionText cs)) = map conditionText cs"
proof (induction cs arbitrary: q rule: induct_list012)
  case 1 then show ?case by simp
next
  case (2 t)
  have "splitLoop andRegEx q [] (conditionText t) = [[] @ conditionText t]"
  proof (rule splitLoop_last)
    fix x q' assume "suffix x (conditionText t)" "x \<noteq> []"
    from andSepLen_in_condition[OF _ this, of "[]"] 2(2)
    show "rmatch andRegEx (q', x, Map.empty) = []" by (intro rmatch_andRegEx_None) simp
  qed
  then show ?case by simp
next
  case (3 t t' ts)
  let ?rest = "join sep (map conditionText (t' # ts))"
  from 3(4) have st: "simpleCondition t" and rest: "\<forall>t \<in> set (t' # ts). simpleCondition t" by auto
  have "splitLoop andRegEx q [] (conditionText t @ sep @ ?rest) =
          ([] @ conditionText t) #
          splitLoop andRegEx (q + length (conditionText t) + length sep) [] ?rest"
  proof (rule splitLoop_piece)
    fix x q' assume "suffix x (conditionText t)" "x \<noteq> []"
    from andSepLen_in_condition[OF st this, of "sep @ ?rest"] andSeparator_hd[OF sep]
    show "rmatch andRegEx (q', x @ sep @ ?rest, Map.empty) = []"
      by (intro rmatch_andRegEx_None) simp
  next
    fix q'
    from join_hd[OF _ rest, of sep] have "?rest = [] \<or> \<not> isSpace (hd ?rest)" by simp
    from rmatch_andRegEx_Some[OF andSepLen_separator[OF sep this], of q' Map.empty]
    show "\<exists>ms c. rmatch andRegEx (q', sep @ ?rest, Map.empty) =
            (q' + length sep, ?rest, c) # ms"
      by auto
  next
    from andSeparator_hd[OF sep] show "sep \<noteq> []" by simp
  qed
  also have "splitLoop andRegEx (q + length (conditionText t) + length sep) [] ?rest =
      map conditionText (t' # ts)"
    by (rule 3(2)[OF _ rest]) simp
  finally show ?case by simp
qed

lemma splitRe_and_conditions:
  assumes "andSeparator sep" "cs \<noteq> []" "\<forall>t \<in> set cs. simpleCondition t"
  shows "splitRe andRegEx (join sep (map conditionText cs)) = map conditionText cs"
  using join_hd[OF assms(2,3), of sep] splitLoop_and_conditions[OF assms, of 0]
  by (simp add: splitRe_def)

lemma properties_of_conditions:
  assumes "andSeparator sep" "cs \<noteq> []" "\<forall>t \<in> set cs. simpleCondition t"
  shows "properties (conditions (join sep (map conditionText cs))) =
           join (ustr '', '') (map (\<lambda>(al, key, val). key @ ustr '': '' @ val) cs)"
proof -
  have "map (\<lambda>t. renderCondition (parseCondition (conditionText t))) cs =
        map (\<lambda>(al, key, val). key @ ustr '': '' @ val) cs"
    using assms(3)
    by (intro map_cong refl) (auto simp: parseCondition_conditionText renderCondition_single)
  moreover have "properties (conditions (join sep (map conditionText cs))) =
      join (ustr '', '') (map (\<lambda>t. renderCondition (parseCondition (conditionText t))) cs)"
    by (simp add: properties_def conditions_def splitRe_and_conditions[OF assms] comp_def)
  ultimately show ?thesis by (simp only:)
qed

subsection \<open>Splitting a conjunction of equality conditions\<close>

lemma andWord_length: "andWord w \<Longrightarrow> length w = 3"
  by (auto simp: andWord_def ustr_def)

lemma ciPrefix_AND_iff: "ciPrefix ''AND'' r \<longleftrightarrow> 3 \<le> length r \<and> andWord (take 3 r)"
proof (cases r rule: list4_cases)
  case 1 then show ?thesis by simp
next
  case (2 a) then show ?thesis by simp
next
  case (3 a b) then show ?thesis by simp
next
  case (4 a b c)
  then show ?thesis by (auto simp: andWord_def ustr_def ci_A_iff ci_N_iff ci_D_iff)
next
  case (5 a b c d r)
  then show ?thesis by (auto simp: andWord_def ustr_def ci_A_iff ci_N_iff ci_D_iff)
qed

lemma andWord_not_space: "andWord w \<Longrightarrow> c \<in> set w \<Longrightarrow> \<not> isSpace c"
  by (auto simp: andWord_def ustr_def)

lemma andGap_separator:
  assumes "andGap sep"
  shows "andSeparator sep"
proof -
  let ?w = "takeWhile isSpace sep"
  let ?r = "dropWhile isSpace sep"
  from assms have w: "?w \<noteq> []" and a: "andWord (take 3 ?r)"
    and b: "drop 3 ?r \<noteq> []" "list_all isSpace (drop 3 ?r)"
    unfolding andGap_def blank_def by blast+
  from b(1) have r3: "3 \<le> length ?r" by (cases "3 \<le> length ?r") simp_all
  with a have c: "ciPrefix ''AND'' ?r" unfolding ciPrefix_AND_iff by blast
  from b(2) have "\<forall>x \<in> set (drop 3 ?r). isSpace x" unfolding list_all_iff .
  then have t: "takeWhile isSpace (drop 3 ?r) = drop 3 ?r"
    by (rule takeWhile_eq_all_conv[THEN iffD2])
  have "length (?w @ ?r) = length ?w + length ?r" by (rule length_append)
  then have len: "length sep = length ?w + length ?r" by (simp only: takeWhile_dropWhile_id)
  from w have c1: "0 < length ?w" using length_greater_0_conv by blast
  from b(1) have c3: "0 < length (drop 3 ?r)" using length_greater_0_conv by blast
  have "length (drop 3 ?r) = length ?r - 3" by (rule length_drop)
  with len r3 have c4: "length ?w + 3 + length (drop 3 ?r) = length sep" by linarith
  show ?thesis
    unfolding andSeparator_def andSepLen_def Let_def t
    by (simp only: c1 c c3 c4 simp_thms if_True)
qed

lemma andGap_hd: "andGap sep \<Longrightarrow> sep \<noteq> [] \<and> isSpace (hd sep)"
  by (rule andSeparator_hd) (rule andGap_separator)

lemma andWord_word:
  assumes "r \<noteq> []" "\<not> isSpace (last r)" "\<not> andWordAt r" "tail = [] \<or> isSpace (hd tail)"
  shows "\<not> (ciPrefix ''AND'' (r @ tail) \<and> drop 3 (r @ tail) \<noteq> [] \<and> isSpace (hd (drop 3 (r @ tail))))"
proof (cases r rule: list4_cases)
  case 1 with assms(1) show ?thesis by simp
next
  case (2 a)
  with assms show ?thesis by (cases tail) (auto dest: ci_N)
next
  case (3 a b)
  with assms show ?thesis by (cases tail) (auto dest: ci_D)
next
  case (4 a b c)
  with assms(3) have "\<not> andWord [a, b, c]" by (simp add: andWordAt_def)
  then show ?thesis unfolding ciPrefix_AND_iff 4 by simp
next
  case (5 a b c d r')
  show ?thesis
  proof
    assume h: "ciPrefix ''AND'' (r @ tail) \<and> drop 3 (r @ tail) \<noteq> [] \<and> isSpace (hd (drop 3 (r @ tail)))"
    then have "andWord [a, b, c]" "isSpace d"
      unfolding ciPrefix_AND_iff 5 by simp_all
    with 5 have "andWordAt r" by (simp add: andWordAt_def)
    with assms(3) show False ..
  qed
qed

lemma andSepLen_None_run:
  assumes "x \<noteq> []" "\<not> isSpace (last x)" "\<not> andWordAt (dropWhile isSpace x)"
    and "tail = [] \<or> isSpace (hd tail)"
  shows "andSepLen (x @ tail) = None"
proof -
  let ?r = "dropWhile isSpace x"
  from assms(1,2) have m: "last x \<in> set x" "\<not> isSpace (last x)" by simp_all
  then have d: "dropWhile isSpace (x @ tail) = ?r @ tail" by (rule dropWhile_append1)
  from m have rne: "?r \<noteq> []" by (auto simp: dropWhile_eq_Nil_conv)
  have "last (takeWhile isSpace x @ ?r) = last ?r" using rne by (rule last_appendR)
  then have "last ?r = last x" by (simp only: takeWhile_dropWhile_id)
  with assms(2) have "\<not> isSpace (last ?r)" by simp
  from andWord_word[OF rne this assms(3,4)]
  show ?thesis
    unfolding andSepLen_def Let_def d takeWhile_pos by (simp only: simp_thms if_False)
qed

lemma noAndWord_after_space:
  assumes "noAndWord v" "suffix x v" "x \<noteq> []" "isSpace (hd x)"
  shows "\<not> andWordAt (dropWhile isSpace x)"
proof -
  let ?w = "takeWhile isSpace x"
  let ?r = "dropWhile isSpace x"
  from assms(3,4) have w: "?w \<noteq> []" by (cases x) auto
  then have "?w = butlast ?w @ [last ?w]" by simp
  then have "x = (butlast ?w @ [last ?w]) @ ?r" by (metis takeWhile_dropWhile_id)
  then have "x = butlast ?w @ (last ?w # ?r)" by simp
  then have "suffix (last ?w # ?r) x" by (metis suffixI)
  from this assms(2) have "suffix (last ?w # ?r) v" by (rule suffix_order.trans)
  then have "last ?w # ?r \<in> set (suffixes v)" by (simp only: in_set_suffixes)
  with assms(1) have "case last ?w # ?r of [] \<Rightarrow> True | y # ys \<Rightarrow> \<not> (isSpace y \<and> andWordAt ys)"
    unfolding noAndWord_def list_all_iff by blast
  then have "\<not> (isSpace (last ?w) \<and> andWordAt ?r)" by simp
  moreover from w have "last ?w \<in> set ?w" by simp
  then have "isSpace (last ?w)" by (rule set_takeWhileD[THEN conjunct2])
  ultimately show ?thesis by simp
qed

lemma equalsSign_chars:
  assumes "equalsSign e" "c \<in> set e"
  shows "isSpace c \<or> c = CU CHR ''=''"
proof -
  from assms(1) obtain ys where d: "dropWhile isSpace e = CU CHR ''='' # ys" and ys: "list_all isSpace ys"
    by (auto simp: equalsSign_def split: list.splits)
  have "e = takeWhile isSpace e @ dropWhile isSpace e" by simp
  then have "set e = set (takeWhile isSpace e) \<union> set (CU CHR ''='' # ys)" by (metis d set_append)
  with assms(2) ys show ?thesis by (auto simp: list_all_iff dest: set_takeWhileD)
qed

lemma equalsSign_not_Nil: "equalsSign e \<Longrightarrow> e \<noteq> []"
  by (auto simp: equalsSign_def)

lemma andWordAt_eq: "\<not> andWordAt (0x3D # xs)"
  by (auto simp: andWordAt_def andWord_def ustr_def)

lemma andSepLen_in_sign:
  assumes e: "equalsSign e" and s: "suffix e' e" "e' \<noteq> []"
    and v: "valueText v" and tail: "tail = [] \<or> isSpace (hd tail)"
  shows "andSepLen ((e' @ v) @ tail) = None"
proof (rule andSepLen_None_run[OF _ _ _ tail])
  from v have vv: "v \<noteq> []" "\<not> isSpace (hd v)" "\<not> isSpace (last v)" "noAndWord v"
    by (simp_all add: valueText_def)
  show "e' @ v \<noteq> []" using vv(1) by simp
  show "\<not> isSpace (last (e' @ v))" using vv(1,3) by simp
  show "\<not> andWordAt (dropWhile isSpace (e' @ v))"
  proof (cases "\<forall>c \<in> set e'. isSpace c")
    case True
    then have "dropWhile isSpace (e' @ v) = dropWhile isSpace v" by (intro dropWhile_append2) blast
    also have "\<dots> = v" using vv(1,2) by (cases v) auto
    finally show ?thesis using vv(4) by (simp add: noAndWord_def)
  next
    case False
    then obtain c where c: "c \<in> set e'" "\<not> isSpace c" by blast
    then have d: "dropWhile isSpace (e' @ v) = dropWhile isSpace e' @ v" by (rule dropWhile_append1)
    from c have "dropWhile isSpace e' \<noteq> []" by (auto simp: dropWhile_eq_Nil_conv)
    then obtain y ys where y: "dropWhile isSpace e' = y # ys" by (cases "dropWhile isSpace e'") auto
    from hd_dropWhile[of isSpace e'] y have "\<not> isSpace y" by simp
    moreover from hd_dropWhile_mem[OF y] s(1) have "y \<in> set e" using set_mono_suffix by blast
    ultimately have "y = CU CHR ''=''" using equalsSign_chars[OF e] by blast
    then show ?thesis unfolding d y by (simp add: andWordAt_eq)
  qed
qed

lemma andSepLen_in_value:
  assumes v: "valueText v" and s: "suffix x v" "x \<noteq> []"
    and tail: "tail = [] \<or> isSpace (hd tail)"
  shows "andSepLen (x @ tail) = None"
proof (cases "isSpace (hd x)")
  case False
  with s(2) show ?thesis by (rule andSepLen_None_hd)
next
  case True
  from v have vv: "\<not> isSpace (last v)" "noAndWord v" by (simp_all add: valueText_def)
  from s obtain p where "v = p @ x" by (auto simp: suffix_def)
  with s(2) have "last x = last v" by simp
  with vv(1) have l: "\<not> isSpace (last x)" by simp
  from noAndWord_after_space[OF vv(2) s True]
  show ?thesis by (rule andSepLen_None_run[OF s(2) l _ tail])
qed

lemma andSepLen_in_equality:
  assumes "equality t" "suffix x (equalityText t)" "x \<noteq> []"
    and tail: "tail = [] \<or> isSpace (hd tail)"
  shows "andSepLen (x @ tail) = None"
proof -
  obtain al key e v where t: "t = (al, key, e, v)" by (cases t)
  let ?p = "al @ ustr ''.'' @ key"
  from assms(1) t have tk: "token al" "token key" "equalsSign e" "valueText v"
    by (auto simp: equality_def)
  have pns: "\<forall>c \<in> set ?p. \<not> isSpace c" using tk by (auto simp: ustr_def dest: tokenD)
  have u: "equalityText t = ?p @ e @ v" by (simp add: t equalityText_def)
  have "suffix x (?p @ (e @ v))" using assms(2) by (simp only: u)
  then have "suffix x (e @ v) \<or> (\<exists>p'. x = p' @ e @ v \<and> suffix p' ?p)"
    by (rule suffix_append[THEN iffD1])
  then consider (sv) "suffix x (e @ v)" | (p) p' where "suffix p' ?p" "p' \<noteq> []" "x = p' @ e @ v"
    by (cases "suffix x (e @ v)") (auto simp del: suffix_append)
  then show ?thesis
  proof cases
    case sv
    then have "suffix x v \<or> (\<exists>e'. x = e' @ v \<and> suffix e' e)"
      by (rule suffix_append[THEN iffD1])
    then consider (v) "suffix x v" | (e) e' where "suffix e' e" "e' \<noteq> []" "x = e' @ v"
      by (cases "suffix x v") auto
    then show ?thesis
    proof cases
      case v
      from andSepLen_in_value[OF tk(4) this assms(3) tail] show ?thesis .
    next
      case (e e')
      from andSepLen_in_sign[OF tk(3) e(1,2) tk(4) tail] show ?thesis by (simp only: e(3))
    qed
  next
    case (p p')
    from suffix_hd_mem[OF p(1,2)] pns have "\<not> isSpace (hd p')" by auto
    with p(2) have "\<not> isSpace (hd x)" by (simp add: p(3))
    with assms(3) show ?thesis by (rule andSepLen_None_hd)
  qed
qed

lemma eqSepLen_shape:
  assumes "\<forall>c \<in> set ws. isSpace c" "\<forall>c \<in> set ys. isSpace c" "v = [] \<or> \<not> isSpace (hd v)"
  shows "eqSepLen ((ws @ 0x3D # ys) @ v) = Some (length (ws @ 0x3D # ys))"
proof -
  have tw: "takeWhile isSpace (ws @ (0x3D # ys @ v)) = ws @ takeWhile isSpace (0x3D # ys @ v)"
    using assms(1) by (intro takeWhile_append2) blast
  have dw: "dropWhile isSpace (ws @ (0x3D # ys @ v)) = dropWhile isSpace (0x3D # ys @ v)"
    using assms(1) by (intro dropWhile_append2) blast
  have "takeWhile isSpace (ys @ v) = ys @ takeWhile isSpace v"
    using assms(2) by (intro takeWhile_append2) blast
  moreover from assms(3) have "takeWhile isSpace v = []" by (cases v) auto
  ultimately have t2: "takeWhile isSpace (ys @ v) = ys" by simp
  show ?thesis
    unfolding eqSepLen_def by (simp add: tw dw t2)
qed

lemma equalsSign_shape:
  assumes "equalsSign e"
  obtains ws ys where "e = ws @ 0x3D # ys" "\<forall>c \<in> set ws. isSpace c" "\<forall>c \<in> set ys. isSpace c"
proof -
  from assms obtain ys where d: "dropWhile isSpace e = 0x3D # ys" and ys: "list_all isSpace ys"
    by (auto simp: equalsSign_def split: list.splits)
  have "takeWhile isSpace e @ dropWhile isSpace e = e" by (rule takeWhile_dropWhile_id)
  then have "e = takeWhile isSpace e @ 0x3D # ys" by (simp only: d)
  moreover have "\<forall>c \<in> set (takeWhile isSpace e). isSpace c" by (auto dest: set_takeWhileD)
  moreover from ys have "\<forall>c \<in> set ys. isSpace c" by (simp add: list_all_iff)
  ultimately show ?thesis by (rule that)
qed

lemma eqSepLen_sign:
  assumes "equalsSign e" "v = [] \<or> \<not> isSpace (hd v)"
  shows "eqSepLen (e @ v) = Some (length e)"
proof -
  from assms(1) obtain ws ys where e: "e = ws @ 0x3D # ys"
    and w: "\<forall>c \<in> set ws. isSpace c" "\<forall>c \<in> set ys. isSpace c"
    by (rule equalsSign_shape)
  from eqSepLen_shape[OF w assms(2)] show ?thesis by (simp only: e)
qed

lemma splitRe_eq_sign:
  assumes p: "p \<noteq> []" "\<forall>c \<in> set p. \<not> isSpace c \<and> c \<noteq> CU CHR ''=''"
    and e: "equalsSign e"
    and v: "CU CHR ''='' \<notin> set v" "v = [] \<or> \<not> isSpace (hd v)"
  shows "splitRe eqRegEx (p @ e @ v) = [p, v]"
proof -
  have "splitLoop eqRegEx 0 [] (p @ e @ v) =
          ([] @ p) # splitLoop eqRegEx (0 + length p + length e) [] v"
  proof (rule splitLoop_piece)
    fix x q' assume x: "suffix x p" "x \<noteq> []"
    from suffix_hd_mem[OF x] p(2) have "\<not> isSpace (hd x)" "hd x \<noteq> CU CHR ''=''" by auto
    with x(2) show "rmatch eqRegEx (q', x @ e @ v, Map.empty) = []"
      by (intro rmatch_eqRegEx_None eqSepLen_None_hd)
  next
    fix q'
    from rmatch_eqRegEx_Some[OF eqSepLen_sign[OF e v(2)], of q' Map.empty]
    show "\<exists>ms c. rmatch eqRegEx (q', e @ v, Map.empty) = (q' + length e, v, c) # ms"
      by auto
  next
    from e show "e \<noteq> []" by (rule equalsSign_not_Nil)
  qed
  moreover have "splitLoop eqRegEx q [] v = [[] @ v]" for q
  proof (rule splitLoop_last)
    fix x q' assume x: "suffix x v" "x \<noteq> []"
    from v(1) x(1) have "CU CHR ''='' \<notin> set x" using set_mono_suffix[of x v] by auto
    then show "rmatch eqRegEx (q', x, Map.empty) = []"
      by (intro rmatch_eqRegEx_None eqSepLen_None_no_eq)
  qed
  ultimately show ?thesis using p(1) by (simp add: splitRe_def)
qed

lemma parseCondition_equality:
  assumes "equality (al, key, e, v)"
  shows "parseCondition (equalityText (al, key, e, v)) = [(key, v)]"
proof -
  let ?p = "al @ ustr ''.'' @ key"
  from assms have tk: "token al" "token key" "CU CHR ''.'' \<notin> set key" "equalsSign e" "valueText v"
    by (auto simp: equality_def)
  from tk(5) have v: "CU CHR ''='' \<notin> set v" "v = [] \<or> \<not> isSpace (hd v)"
    by (simp_all add: valueText_def)
  have "?p \<noteq> []" "\<forall>c \<in> set ?p. \<not> isSpace c \<and> c \<noteq> CU CHR ''=''"
    using tk(1,2) by (auto simp: ustr_def dest: tokenD)
  from splitRe_eq_sign[OF this tk(4) v] have "splitRe eqRegEx (?p @ e @ v) = [?p, v]" .
  moreover have "lastSegment ?p = key"
    using tk(3) lastSegment_append[of key al] by (auto simp: ustr_def)
  ultimately show ?thesis by (simp add: parseCondition_eq equalityText_def)
qed

lemma equalityText_hd:
  assumes "equality t"
  shows "equalityText t \<noteq> [] \<and> \<not> isSpace (hd (equalityText t))"
proof -
  obtain al key e v where t: "t = (al, key, e, v)" by (cases t)
  with assms have "token al" by (simp add: equality_def)
  from token_not_Nil[OF this] token_hd[OF this] show ?thesis
    by (simp add: t equalityText_def)
qed

lemma conjunctionText_hd:
  "equality t \<Longrightarrow> conjunctionText t ts \<noteq> [] \<and> \<not> isSpace (hd (conjunctionText t ts))"
  using equalityText_hd[of t] by (simp add: conjunctionText_def)

lemma conjunctionText_Cons:
  "conjunctionText t ((sep, t') # ts) = equalityText t @ sep @ conjunctionText t' ts"
  by (simp add: conjunctionText_def)

lemma splitLoop_and_conjunction:
  "equality t \<Longrightarrow> \<forall>(sep, t') \<in> set ts. andGap sep \<and> equality t' \<Longrightarrow>
     splitLoop andRegEx q [] (conjunctionText t ts) = map equalityText (t # map snd ts)"
proof (induction ts arbitrary: t q)
  case Nil
  have "splitLoop andRegEx q [] (equalityText t) = [[] @ equalityText t]"
  proof (rule splitLoop_last)
    fix x q' assume "suffix x (equalityText t)" "x \<noteq> []"
    from andSepLen_in_equality[OF Nil(1) this, of "[]"]
    show "rmatch andRegEx (q', x, Map.empty) = []" by (intro rmatch_andRegEx_None) simp
  qed
  then show ?case by (simp add: conjunctionText_def)
next
  case (Cons st ts)
  obtain sep t' where st: "st = (sep, t')" by (cases st)
  from Cons.prems(2) st have g: "andGap sep" and e': "equality t'"
    and rest: "\<forall>(sep, t') \<in> set ts. andGap sep \<and> equality t'" by auto
  let ?rest = "conjunctionText t' ts"
  have "splitLoop andRegEx q [] (equalityText t @ sep @ ?rest) =
          ([] @ equalityText t) # splitLoop andRegEx (q + length (equalityText t) + length sep) [] ?rest"
  proof (rule splitLoop_piece)
    fix x q' assume "suffix x (equalityText t)" "x \<noteq> []"
    from andSepLen_in_equality[OF Cons.prems(1) this, of "sep @ ?rest"] andGap_hd[OF g]
    show "rmatch andRegEx (q', x @ sep @ ?rest, Map.empty) = []"
      by (intro rmatch_andRegEx_None) simp
  next
    fix q'
    from conjunctionText_hd[OF e', of ts] have "?rest = [] \<or> \<not> isSpace (hd ?rest)" by simp
    from rmatch_andRegEx_Some[OF andSepLen_separator[OF andGap_separator[OF g] this], of q' Map.empty]
    show "\<exists>ms c. rmatch andRegEx (q', sep @ ?rest, Map.empty) = (q' + length sep, ?rest, c) # ms"
      by auto
  next
    from andGap_hd[OF g] show "sep \<noteq> []" by simp
  qed
  also have "splitLoop andRegEx (q + length (equalityText t) + length sep) [] ?rest =
      map equalityText (t' # map snd ts)"
    by (rule Cons.IH[OF e' rest])
  finally show ?case by (simp add: st conjunctionText_Cons)
qed

lemma conditions_of_conjunction:
  assumes "equality t" "\<forall>(sep, t') \<in> set ts. andGap sep \<and> equality t'"
  shows "conditions (conjunctionText t ts) = map (\<lambda>(al, key, e, v). [(key, v)]) (t # map snd ts)"
proof -
  have "splitRe andRegEx (conjunctionText t ts) = map equalityText (t # map snd ts)"
    using conjunctionText_hd[OF assms(1), of ts] splitLoop_and_conjunction[OF assms, of 0]
    by (simp add: splitRe_def)
  moreover have "map parseCondition (map equalityText (t # map snd ts)) =
      map (\<lambda>(al, key, e, v). [(key, v)]) (t # map snd ts)"
    unfolding map_map
  proof (rule map_cong[OF refl])
    fix u assume "u \<in> set (t # map snd ts)"
    with assms have "equality u" by auto
    then show "(parseCondition \<circ> equalityText) u = (case u of (al, key, e, v) \<Rightarrow> [(key, v)])"
      by (cases u) (simp add: parseCondition_equality)
  qed
  ultimately show ?thesis by (simp only: conditions_def)
qed

lemma properties_of_conjunction:
  assumes "equality t" "\<forall>(sep, t') \<in> set ts. andGap sep \<and> equality t'"
  shows "properties (conditions (conjunctionText t ts)) = join (ustr '', '') (map keyValue (t # map snd ts))"
proof -
  have "map renderCondition (map (\<lambda>(al, key, e, v). [(key, v)]) (t # map snd ts)) =
        map keyValue (t # map snd ts)"
    unfolding map_map
    by (rule map_cong[OF refl]) (auto simp: renderCondition_single keyValue_def)
  then show ?thesis
    unfolding properties_def conditions_of_conjunction[OF assms] by (simp only:)
qed

section \<open>The WHERE clause and the MATCH keyword\<close>

lemma rmatch_closeRe:
  "rmatch closeRe (e, y, c) =
     (if y = [CU CHR '')''] then [(Suc e, [], c)] else if y = [] then [(e, [], c)] else [])"
  by (cases y) (auto simp: closeRe_def isChar_def)

lemma dropClosing_simps:
  "dropClosing [] = []"
  "dropClosing [x] = (if x = CU CHR '')'' then [] else [x])"
  "dropClosing (x # y # ys) = x # dropClosing (y # ys)"
  by (simp_all add: dropClosing_def)

lemma lazy_capture:
  "list_all isDot z \<Longrightarrow>
     \<exists>ms. concat (map (rmatch closeRe)
            (map (\<lambda>(j, ys, c'). (j, ys, c'(1 \<mapsto> pre @ take (j - i) z))) (star_lazy isDot (i, z, c)))) =
          (i + length z, [], c(1 \<mapsto> pre @ dropClosing z)) # ms"
proof (induction z arbitrary: i pre)
  case Nil
  show ?case by (simp add: rmatch_closeRe dropClosing_simps)
next
  case (Cons x z)
  show ?case
  proof (cases z)
    case Nil
    with Cons.prems show ?thesis
      by (auto simp: rmatch_closeRe dropClosing_simps)
  next
    case (Cons y ys)
    from Cons.prems have d: "isDot x" "list_all isDot z" by simp_all
    from Cons.IH[OF d(2), of "pre @ [x]" "Suc i"] obtain ms where
      ih: "concat (map (rmatch closeRe)
            (map (\<lambda>(j, ys, c'). (j, ys, c'(1 \<mapsto> (pre @ [x]) @ take (j - Suc i) z))) (star_lazy isDot (Suc i, z, c)))) =
          (Suc i + length z, [], c(1 \<mapsto> (pre @ [x]) @ dropClosing z)) # ms" by blast
    have eq: "map (\<lambda>(j, ys, c'). (j, ys, c'(1 \<mapsto> pre @ take (j - i) (x # z)))) (star_lazy isDot (Suc i, z, c)) =
          map (\<lambda>(j, ys, c'). (j, ys, c'(1 \<mapsto> (pre @ [x]) @ take (j - Suc i) z))) (star_lazy isDot (Suc i, z, c))"
    proof (rule map_cong[OF refl])
      fix s assume sm: "s \<in> set (star_lazy isDot (Suc i, z, c))"
      obtain j ys c' where s: "s = (j, ys, c')" by (cases s)
      with sm star_lazy_bounds[of j ys c' isDot "Suc i" z c] have "Suc i \<le> j" by simp
      then have "take (j - i) (x # z) = x # take (j - Suc i) z" by (simp add: take_Cons' Suc_diff_le)
      with s show "(case s of (j, ys, c') \<Rightarrow> (j, ys, c'(1 \<mapsto> pre @ take (j - i) (x # z)))) =
          (case s of (j, ys, c') \<Rightarrow> (j, ys, c'(1 \<mapsto> (pre @ [x]) @ take (j - Suc i) z)))" by simp
    qed
    from Cons have zne: "z \<noteq> []" by simp
    then have dc: "dropClosing (x # z) = x # dropClosing z"
      by (cases z) (simp_all add: dropClosing_simps)
    from zne have here: "rmatch closeRe (i, x # z, c'') = []" for c''
      by (simp add: rmatch_closeRe)
    have "star_lazy isDot (i, x # z, c) = (i, x # z, c) # star_lazy isDot (Suc i, z, c)"
      using d(1) by simp
    then have "concat (map (rmatch closeRe)
            (map (\<lambda>(j, ys, c'). (j, ys, c'(1 \<mapsto> pre @ take (j - i) (x # z)))) (star_lazy isDot (i, x # z, c)))) =
          concat (map (rmatch closeRe)
            (map (\<lambda>(j, ys, c'). (j, ys, c'(1 \<mapsto> pre @ take (j - i) (x # z)))) (star_lazy isDot (Suc i, z, c))))"
      by (simp add: here)
    also note eq
    also note ih
    finally show ?thesis by (simp add: dc fun_upd_def)
  qed
qed

lemma lazy_capture_fail:
  assumes g: "\<And>s. fst (snd (g s)) = fst (snd s)"
  shows "\<not> list_all isDot z \<Longrightarrow>
     concat (map (rmatch closeRe) (map g (star_lazy isDot (i, z, c)))) = []"
proof (induction z arbitrary: i)
  case Nil then show ?case by simp
next
  case (Cons x z)
  obtain j ys c' where gs: "g (i, x # z, c) = (j, ys, c')" by (cases "g (i, x # z, c)")
  with g[of "(i, x # z, c)"] have ys: "ys = x # z" by simp
  from Cons.prems have "x # z \<noteq> [CU CHR '')'']" by (auto simp: isDot_def isLineTerminator_def)
  with gs ys have here: "rmatch closeRe (g (i, x # z, c)) = []" by (simp add: rmatch_closeRe)
  show ?case
  proof (cases "isDot x")
    case True
    with Cons.prems have "\<not> list_all isDot z" by simp
    from Cons.IH[OF this, of "Suc i"] True here show ?thesis by simp
  next
    case False
    with here show ?thesis by simp
  qed
qed

lemma whereRegEx_alt: "whereRegEx = lit_i ''WHERE'' (Seq (Plus isSpace) tailRe)"
  by (simp add: whereRegEx_def tailRe_def captureRe_def closeRe_def)

lemma captureRe_ok:
  assumes "list_all isDot z"
  shows "\<exists>ms. rmatch captureRe (i, z, c) = (i + length z, [], c(1 \<mapsto> dropClosing z)) # ms"
  using lazy_capture[OF assms, of "[]" i c] by (simp add: captureRe_def)

lemma captureRe_fail:
  assumes "\<not> list_all isDot z"
  shows "rmatch captureRe (i, z, c) = []"
  unfolding captureRe_def rmatch.simps
  by (rule lazy_capture_fail[OF _ assms]) auto

lemma tailRe_fail:
  assumes "\<not> list_all isDot r"
  shows "rmatch tailRe (i, r, c) = []"
proof (cases r)
  case Nil with assms show ?thesis by simp
next
  case (Cons x r')
  show ?thesis
  proof (cases "x = CU CHR ''(''")
    case True
    with assms Cons have "\<not> list_all isDot r'" by (simp add: isDot_def isLineTerminator_def)
    from captureRe_fail[OF this] captureRe_fail[OF assms] True Cons show ?thesis
      by (simp add: tailRe_def isChar_def)
  next
    case False
    with captureRe_fail[OF assms] Cons show ?thesis by (simp add: tailRe_def isChar_def)
  qed
qed

lemma tailRe_ok:
  assumes "list_all isDot r"
  shows "\<exists>ms. rmatch tailRe (i, r, c) = (i + length r, [], c(1 \<mapsto> unwrap r)) # ms"
proof (cases "r \<noteq> [] \<and> hd r = CU CHR ''(''")
  case True
  then obtain r' where r: "r = CU CHR ''('' # r'" by (cases r) auto
  with assms have "list_all isDot r'" by simp
  from captureRe_ok[OF this, of "Suc i" c] obtain ms where
    "rmatch captureRe (Suc i, r', c) = (Suc i + length r', [], c(1 \<mapsto> dropClosing r')) # ms" ..
  then show ?thesis by (simp add: tailRe_def isChar_def r unwrap_def)
next
  case False
  then have u: "unwrap r = dropClosing r" by (auto simp: unwrap_def)
  from False have "rmatch (Atom (isChar CHR ''('')) (i, r, c) = []"
    by (cases r) (auto simp: isChar_def)
  with captureRe_ok[OF assms, of i c] show ?thesis by (simp add: tailRe_def u)
qed

lemma suffix_not_all: "\<not> list_all p (drop n xs) \<Longrightarrow> k \<le> n \<Longrightarrow> \<not> list_all p (drop k xs)"
proof -
  assume a: "\<not> list_all p (drop n xs)" "k \<le> n"
  then have "drop n xs = drop (n - k) (drop k xs)" by simp
  with a(1) show ?thesis using set_drop_subset[of "n - k" "drop k xs"]
    by (auto simp: list_all_iff)
qed

lemma spaces_tail_fail:
  assumes "\<not> list_all isDot (dropWhile isSpace xs)"
  shows "rmatch (Seq (Plus isSpace) tailRe) (i, xs, c) = []"
proof (cases xs)
  case Nil then show ?thesis by (simp add: rmatch.simps(8))
next
  case (Cons x xs')
  show ?thesis
  proof (cases "isSpace x")
    case False with Cons show ?thesis by (simp add: rmatch.simps(8))
  next
    case True
    have "rmatch tailRe s = []" if "s \<in> set (star_greedy isSpace (Suc i, xs', c))" for s
    proof -
      obtain j ys c' where s: "s = (j, ys, c')" by (cases s)
      from star_greedy_mem[of j ys c' isSpace "Suc i" xs' c] that s obtain k where
        k: "k \<le> length (takeWhile isSpace xs')" "ys = drop k xs'" by auto
      from assms Cons True have "\<not> list_all isDot (drop (length (takeWhile isSpace xs')) xs')"
        by (simp add: drop_takeWhile_len)
      from suffix_not_all[OF this k(1)] k(2) s show ?thesis by (simp add: tailRe_fail)
    qed
    with Cons True show ?thesis by (simp add: rmatch.simps(8))
  qed
qed

lemma spaces_tail_ok:
  assumes "xs \<noteq> []" "isSpace (hd xs)" "list_all isDot (dropWhile isSpace xs)"
  shows "\<exists>ms. rmatch (Seq (Plus isSpace) tailRe) (i, xs, c) =
           (i + length xs, [], c(1 \<mapsto> unwrap (dropWhile isSpace xs))) # ms"
proof -
  from assms(1,2) obtain x xs' where xs: "xs = x # xs'" and x: "isSpace x" by (cases xs) auto
  let ?n = "length (takeWhile isSpace xs')"
  from xs x have r: "dropWhile isSpace xs = dropWhile isSpace xs'" by simp
  from star_greedy_hd[of isSpace "Suc i" xs' c] obtain rest where
    sg: "star_greedy isSpace (Suc i, xs', c) = (Suc i + ?n, dropWhile isSpace xs', c) # rest" ..
  from tailRe_ok[OF assms(3)[unfolded r], of "Suc i + ?n" c] obtain ms where
    t: "rmatch tailRe (Suc i + ?n, dropWhile isSpace xs', c) =
         (Suc i + ?n + length (dropWhile isSpace xs'), [], c(1 \<mapsto> unwrap (dropWhile isSpace xs'))) # ms" ..
  have "length (takeWhile isSpace xs' @ dropWhile isSpace xs') = ?n + length (dropWhile isSpace xs')"
    by (rule length_append)
  then have len: "length xs' = ?n + length (dropWhile isSpace xs')" by (simp only: takeWhile_dropWhile_id)
  have "rmatch (Seq (Plus isSpace) tailRe) (i, xs, c) =
      rmatch tailRe (Suc i + ?n, dropWhile isSpace xs', c) @ concat (map (rmatch tailRe) rest)"
    using xs x sg by (simp add: rmatch.simps(8))
  with t len x show ?thesis by (simp add: r xs)
qed

lemma rmatch_lit_WHERE:
  "rmatch (lit_i ''WHERE'' k) (i, xs, c) =
     (if ciPrefix ''WHERE'' xs then rmatch k (i + 5, drop 5 xs, c) else [])"
  unfolding rmatch_lit_i by (simp add: eval_nat_numeral)

lemma rmatch_whereRegEx_None:
  "whereTail xs = None \<Longrightarrow> rmatch whereRegEx (i, xs, c) = []"
  unfolding whereRegEx_alt rmatch_lit_WHERE
  using spaces_tail_fail[of "drop 5 xs" "i + 5" c]
  by (cases "drop 5 xs") (auto simp: whereTail_def rmatch.simps(8) split: if_splits)

lemma rmatch_whereRegEx_Some:
  assumes "whereTail xs = Some r"
  shows "\<exists>ms. rmatch whereRegEx (i, xs, c) = (i + length xs, [], c(1 \<mapsto> unwrap r)) # ms"
proof -
  from assms have a: "ciPrefix ''WHERE'' xs" "drop 5 xs \<noteq> []" "isSpace (hd (drop 5 xs))"
    "list_all isDot (dropWhile isSpace (drop 5 xs))" and r: "r = dropWhile isSpace (drop 5 xs)"
    by (auto simp: whereTail_def split: if_splits)
  from ciPrefix_length[OF a(1)] have "5 \<le> length xs" by simp
  then have "i + 5 + length (drop 5 xs) = i + length xs" by simp
  with spaces_tail_ok[OF a(2,3,4), of "i + 5" c] a(1) r show ?thesis
    unfolding whereRegEx_alt rmatch_lit_WHERE by simp
qed

lemma whereTail_Nil [simp]: "whereTail [] = None"
  by (simp add: whereTail_def)

lemma exec_whereRegEx:
  "exec whereRegEx i xs =
     (case firstWhere xs of
        None \<Rightarrow> None
      | Some (k, r) \<Rightarrow> Some (i + k, i + length xs, [1 \<mapsto> unwrap r]))"
proof (induction xs arbitrary: i)
  case Nil
  show ?case by (simp add: exec_Nil rmatch_whereRegEx_None)
next
  case (Cons x xs)
  show ?case
  proof (cases "whereTail (x # xs)")
    case None
    from rmatch_whereRegEx_None[OF this] have "exec whereRegEx i (x # xs) = exec whereRegEx (Suc i) xs"
      by (rule exec_skip)
    with None Cons.IH[of "Suc i"] show ?thesis by (auto split: option.splits)
  next
    case (Some r)
    from rmatch_whereRegEx_Some[OF this, of i Map.empty] obtain ms where
      "rmatch whereRegEx (i, x # xs, Map.empty) = (i + length (x # xs), [], [1 \<mapsto> unwrap r]) # ms" ..
    from exec_here[OF this] Some show ?thesis by simp
  qed
qed

lemma firstWhere_Some:
  "firstWhere xs = Some (k, r) \<Longrightarrow>
     whereTail (drop k xs) = Some r \<and> (\<forall>j < k. whereTail (drop j xs) = None) \<and> k < length xs"
proof (induction xs arbitrary: k)
  case Nil then show ?case by simp
next
  case (Cons x xs)
  show ?case
  proof (cases "whereTail (x # xs)")
    case (Some r') with Cons.prems show ?thesis by simp
  next
    case None
    with Cons.prems obtain k' where k: "firstWhere xs = Some (k', r)" "k = Suc k'"
      by (auto split: option.splits)
    from Cons.IH[OF k(1)] None k(2) show ?thesis by (auto simp: less_Suc_eq_0_disj)
  qed
qed

lemma firstWhere_None: "firstWhere xs = None \<Longrightarrow> whereTail (drop k xs) = None"
proof (induction xs arbitrary: k)
  case Nil then show ?case by simp
next
  case (Cons x xs)
  then show ?case by (cases k) (auto split: option.splits)
qed

lemma firstWhere_first:
  "whereTail (drop k xs) = Some r \<Longrightarrow> \<forall>j < k. whereTail (drop j xs) = None \<Longrightarrow>
     firstWhere xs = Some (k, r)"
proof (induction xs arbitrary: k)
  case Nil then show ?case by simp
next
  case (Cons x xs)
  show ?case
  proof (cases k)
    case 0 with Cons.prems show ?thesis by simp
  next
    case (Suc k')
    with Cons.prems have "whereTail (drop k' xs) = Some r" by simp
    moreover have "\<forall>j < k'. whereTail (drop j xs) = None"
    proof (intro allI impI)
      fix j assume "j < k'"
      with Cons.prems(2)[rule_format, of "Suc j"] Suc show "whereTail (drop j xs) = None" by simp
    qed
    ultimately have "firstWhere xs = Some (k', r)" by (rule Cons.IH)
    moreover from Cons.prems(2)[rule_format, of 0] Suc have "whereTail (x # xs) = None" by simp
    ultimately show ?thesis using Suc by simp
  qed
qed

lemma whereCapture_eq:
  "whereCapture s = (case firstWhere s of None \<Rightarrow> None | Some (k, r) \<Rightarrow> Some (unwrap r))"
  by (simp add: whereCapture_def exec_whereRegEx split: option.splits)

lemma getSubstitution_Nil [simp]: "getSubstitution matched str pos m caps [] = []"
  by simp

lemma replaceFirst_whereRegEx:
  "replaceFirst whereRegEx [] s = (case firstWhere s of None \<Rightarrow> s | Some (k, r) \<Rightarrow> take k s)"
  by (simp add: replaceFirst_def exec_whereRegEx split: option.splits)

lemma unwrap_empty_iff:
  "unwrap r = [] \<longleftrightarrow> r = [] \<or> r = ustr ''('' \<or> r = ustr '')'' \<or> r = ustr ''()''"
proof (cases r rule: list4_cases)
  case 1 then show ?thesis by (simp add: unwrap_def dropClosing_def)
next
  case (2 a) then show ?thesis by (auto simp: unwrap_def dropClosing_def ustr_def)
next
  case (3 a b) then show ?thesis by (auto simp: unwrap_def dropClosing_def ustr_def)
next
  case (4 a b c) then show ?thesis by (auto simp: unwrap_def dropClosing_def ustr_def)
next
  case (5 a b c d r) then show ?thesis by (auto simp: unwrap_def dropClosing_def ustr_def)
qed

lemma whereTail_keyword: "whereTail xs = Some r \<Longrightarrow> whereKeyword xs"
  by (auto simp: whereTail_def whereKeyword_def split: if_splits)

lemma hasWhereKeyword_drop: "whereKeyword (drop k xs) \<Longrightarrow> hasWhereKeyword xs"
proof (induction xs arbitrary: k)
  case Nil then show ?case by (simp add: whereKeyword_def)
next
  case (Cons x xs) then show ?case by (cases k) auto
qed

lemma firstWhere_no_keyword: "\<not> hasWhereKeyword xs \<Longrightarrow> firstWhere xs = None"
proof (rule ccontr)
  assume a: "\<not> hasWhereKeyword xs" "firstWhere xs \<noteq> None"
  then obtain k r where "firstWhere xs = Some (k, r)" by auto
  from firstWhere_Some[OF this] have "whereKeyword (drop k xs)" by (auto dest: whereTail_keyword)
  with a(1) show False by (auto dest: hasWhereKeyword_drop)
qed

lemma ci_M: "ci CHR ''M'' x \<Longrightarrow> \<not> isSpace x"
  by (rule ci_letter_not_space[of "CHR ''M''"]) simp_all

lemma rmatch_lit_MATCH:
  "rmatch (lit_i ''MATCH'' k) (i, xs, c) =
     (if ciPrefix ''MATCH'' xs then rmatch k (i + 5, drop 5 xs, c) else [])"
  unfolding rmatch_lit_i by (simp add: eval_nat_numeral)

lemma match_failsOn: "failsOn isSpace (lit_i ''MATCH'' (Plus isSpace))"
proof (rule failsOnI)
  fix j y ys c assume "isSpace y"
  with ci_M[of y] show "rmatch (lit_i ''MATCH'' (Plus isSpace)) (j, y # ys, c) = []"
    by (auto simp: rmatch_lit_i)
qed

lemma rmatch_matchRegEx_pos: "0 < i \<Longrightarrow> rmatch matchRegEx (i, xs, c) = []"
  by (simp add: matchRegEx_def)

lemma rmatch_Seq_Bol:
  "rmatch (Seq Bol k) (i, xs, c) = (if i = 0 then rmatch k (i, xs, c) else [])"
  by simp

lemma rmatch_matchRegEx_0:
  "rmatch matchRegEx (0, xs, c) =
     rmatch (Plus isSpace) (length (takeWhile isSpace xs) + 5, drop 5 (dropWhile isSpace xs), c)"
  if "ciPrefix ''MATCH'' (dropWhile isSpace xs)"
  unfolding matchRegEx_def rmatch_Seq_Bol rmatch_Star_then[OF match_failsOn] rmatch_lit_MATCH
  using that by simp

lemma rmatch_matchRegEx_0_no:
  "rmatch matchRegEx (0, xs, c) = []" if "\<not> ciPrefix ''MATCH'' (dropWhile isSpace xs)"
  unfolding matchRegEx_def rmatch_Seq_Bol rmatch_Star_then[OF match_failsOn] rmatch_lit_MATCH
  using that by simp

lemma stripMatch_eq: "stripMatch s = afterMatch s"
proof -
  let ?n = "length (takeWhile isSpace s)"
  let ?r = "dropWhile isSpace s"
  let ?t = "drop 5 ?r"
  show ?thesis
  proof (cases "ciPrefix ''MATCH'' ?r \<and> ?t \<noteq> [] \<and> isSpace (hd ?t)")
    case True
    then have c: "ciPrefix ''MATCH'' ?r" "?t \<noteq> []" "isSpace (hd ?t)" by blast+
    from rmatch_Plus_Cons[of ?t isSpace "?n + 5" Map.empty, OF c(2,3)] obtain ms where
      "rmatch (Plus isSpace) (?n + 5, ?t, Map.empty) =
         (?n + 5 + length (takeWhile isSpace ?t), dropWhile isSpace ?t, Map.empty) # ms" ..
    with rmatch_matchRegEx_0[OF c(1), of Map.empty]
    have "rmatch matchRegEx (0, s, Map.empty) =
         (?n + 5 + length (takeWhile isSpace ?t), dropWhile isSpace ?t, Map.empty) # ms" by simp
    from exec_here[OF this]
    have e: "exec matchRegEx 0 s = Some (0, ?n + 5 + length (takeWhile isSpace ?t), Map.empty)" .
    have t: "?t = drop (?n + 5) s" by (simp add: drop_takeWhile_len[symmetric] add.commute)
    have "drop (?n + 5 + length (takeWhile isSpace (drop (?n + 5) s))) s = dropWhile isSpace (drop (?n + 5) s)"
      by (rule drop_add_takeWhile)
    then have "drop (?n + 5 + length (takeWhile isSpace ?t)) s = dropWhile isSpace ?t"
      by (simp only: t)
    with True show ?thesis
      by (simp add: stripMatch_def replaceFirst_def e afterMatch_def Let_def del: drop_drop)
  next
    case False
    have "\<forall>k \<le> length s. rmatch matchRegEx (0 + k, drop k s, Map.empty) = []"
    proof (intro allI impI)
      fix k assume "k \<le> length s"
      show "rmatch matchRegEx (0 + k, drop k s, Map.empty) = []"
      proof (cases k)
        case (Suc k') then show ?thesis by (simp add: rmatch_matchRegEx_pos)
      next
        case 0
        show ?thesis
        proof (cases "ciPrefix ''MATCH'' ?r")
          case False with 0 show ?thesis by (simp add: rmatch_matchRegEx_0_no)
        next
          case True
          with False have "?t = [] \<or> \<not> isSpace (hd ?t)" by blast
          from rmatch_Plus_Nil[of ?t isSpace "?n + 5" Map.empty, OF this]
            rmatch_matchRegEx_0[OF True, of Map.empty] 0
          show ?thesis by simp
        qed
      qed
    qed
    then have "exec matchRegEx 0 s = None" by (simp only: exec_None_iff)
    with False show ?thesis by (auto simp: stripMatch_def replaceFirst_def afterMatch_def Let_def)
  qed
qed

lemma afterMatch_drop: "\<exists>n. afterMatch s = drop n s"
proof -
  let ?n = "length (takeWhile isSpace s)"
  have t: "drop 5 (dropWhile isSpace s) = drop (?n + 5) s"
    by (simp add: drop_takeWhile_len[symmetric] add.commute)
  have "drop (?n + 5 + length (takeWhile isSpace (drop (?n + 5) s))) s =
        dropWhile isSpace (drop (?n + 5) s)"
    by (rule drop_add_takeWhile)
  then have A: "\<exists>n. dropWhile isSpace (drop 5 (dropWhile isSpace s)) = drop n s"
    unfolding t by metis
  have B: "\<exists>n. s = drop n s" by (rule exI[of _ 0]) simp
  show ?thesis
  proof (cases "ciPrefix ''MATCH'' (dropWhile isSpace s) \<and> drop 5 (dropWhile isSpace s) \<noteq> [] \<and>
             isSpace (hd (drop 5 (dropWhile isSpace s)))")
    case True
    then have "afterMatch s = dropWhile isSpace (drop 5 (dropWhile isSpace s))"
      unfolding afterMatch_def Let_def by (rule if_P)
    with A show ?thesis by (simp only:)
  next
    case False
    then have "afterMatch s = s" unfolding afterMatch_def Let_def by (rule if_not_P)
    with B show ?thesis by (simp only:)
  qed
qed

lemma padBlock_padLines: "padBlock s = CU CHR 0x09 # padLines s"
  by (simp add: padBlock_def padLines_def)

lemma padLines_simps [simp]:
  "padLines [] = []"
  "padLines (x # xs) = (if x = 0x0A then x # 0x09 # padLines xs else x # padLines xs)"
  by (simp_all add: padLines_def)

lemma ciPrefix_padLines:
  "\<forall>a \<in> set w. \<not> ci a 0x0A \<Longrightarrow> ciPrefix w (padLines s) \<Longrightarrow>
     ciPrefix w s \<and> drop (length w) (padLines s) = padLines (drop (length w) s)"
proof (induction w s rule: ciPrefix.induct)
  case (1 xs) show ?case by simp
next
  case (2 a as) then show ?case by simp
next
  case (3 a as x xs)
  from 3(2,3) have "x \<noteq> 0x0A" by (auto split: if_splits)
  with 3 show ?case by auto
qed

lemma hd_padLines: "s \<noteq> [] \<Longrightarrow> padLines s \<noteq> [] \<and> hd (padLines s) = hd s"
  by (cases s) auto

lemma not_ci_WHERE_nl: "\<forall>a \<in> set ''WHERE''. \<not> ci a 0x0A"
  by (auto simp: ci_def canonicalize_def)

lemma whereKeyword_padLines: "whereKeyword (padLines s) \<Longrightarrow> whereKeyword s"
proof -
  assume a: "whereKeyword (padLines s)"
  then have p: "ciPrefix ''WHERE'' (padLines s)" by (simp add: whereKeyword_def)
  from ciPrefix_padLines[OF not_ci_WHERE_nl p]
  have c: "ciPrefix ''WHERE'' s" and d: "drop 5 (padLines s) = padLines (drop 5 s)"
    by (simp_all add: eval_nat_numeral)
  from a d have "padLines (drop 5 s) \<noteq> []" "isSpace (hd (padLines (drop 5 s)))"
    by (simp_all add: whereKeyword_def)
  then have "drop 5 s \<noteq> [] \<and> isSpace (hd (drop 5 s))"
    using hd_padLines[of "drop 5 s"] by (cases "drop 5 s") auto
  with c show ?thesis by (simp add: whereKeyword_def)
qed

lemma not_whereKeyword_tab: "\<not> whereKeyword (0x09 # xs)"
  by (simp add: whereKeyword_def ci_def canonicalize_def)

lemma hasWhereKeyword_padLines: "hasWhereKeyword (padLines s) \<Longrightarrow> hasWhereKeyword s"
proof (induction s)
  case Nil then show ?case by simp
next
  case (Cons x s)
  show ?case
  proof (cases "x = 0x0A")
    case True
    with Cons.prems have "whereKeyword (padLines (x # s)) \<or> hasWhereKeyword (padLines s)"
      by (auto simp: not_whereKeyword_tab)
    with Cons.IH whereKeyword_padLines[of "x # s"] show ?thesis by auto
  next
    case False
    with Cons.prems have "whereKeyword (padLines (x # s)) \<or> hasWhereKeyword (padLines s)"
      by auto
    with Cons.IH whereKeyword_padLines[of "x # s"] show ?thesis by auto
  qed
qed

lemma hasWhereKeyword_padBlock: "hasWhereKeyword (padBlock s) \<Longrightarrow> hasWhereKeyword s"
  by (auto simp: padBlock_padLines not_whereKeyword_tab dest: hasWhereKeyword_padLines)

lemma hasWhereKeyword_dropD: "hasWhereKeyword (drop n s) \<Longrightarrow> hasWhereKeyword s"
proof (induction s arbitrary: n)
  case Nil then show ?case by simp
next
  case (Cons x s) then show ?case by (cases n) auto
qed

lemma firstWhere_stripMatch_no_keyword:
  assumes "\<not> hasWhereKeyword s"
  shows "firstWhere (stripMatch s) = None"
proof -
  from afterMatch_drop[of s] obtain n where "stripMatch s = drop n s" by (auto simp: stripMatch_eq)
  with assms hasWhereKeyword_dropD[of n s] show ?thesis by (auto intro: firstWhere_no_keyword)
qed

lemma transformCypherQuery_cases:
  "transformCypherQuery f =
     (case firstWhere (afterMatch f) of
        None \<Rightarrow> Inl (Error ''No WHERE clause found.'')
      | Some (k, r) \<Rightarrow>
          if unwrap r = [] then Inl (Error ''No WHERE clause found.'')
          else Inr (stripVariables (injectProperties (properties (conditions (unwrap r))) (afterMatch f))))"
  by (simp add: transformCypherQuery_def Let_def whereCapture_eq stripMatch_eq split: option.splits)

section \<open>Stripping the variables\<close>

lemma not_word_lits [simp]:
  "\<not> isWordChar 0x28" "\<not> isWordChar 0x29" "\<not> isWordChar 0x3A" "\<not> isWordChar 0x20"
  "\<not> isWordChar 0x24" "\<not> isWordChar 0x7B" "\<not> isWordChar 0x7D" "\<not> isWordChar 0x60"
  "\<not> isWordChar 0x2E" "\<not> isWordChar 0x3D" "\<not> isWordChar 0x09" "\<not> isWordChar 0x0A"
  by (simp_all add: isWordChar_def)

lemma var_failsOn: "failsOn isWordChar (Group 1 (Atom (isChar CHR '':'')))"
  by (rule failsOnI) (auto simp: isChar_def)

lemma rmatch_varRegEx_None:
  assumes "varRefLen xs = None"
  shows "rmatch varRegEx (i, xs, c) = []"
proof (cases xs)
  case Nil then show ?thesis by (simp add: varRegEx_def)
next
  case (Cons x ys)
  show ?thesis
  proof (cases "x = CU CHR ''(''")
    case False with Cons show ?thesis by (simp add: varRegEx_def isChar_def)
  next
    case True
    have "rmatch (Seq (Plus isWordChar) (Group 1 (Atom (isChar CHR '':'')))) (Suc i, ys, c) = []"
    proof (cases "ys \<noteq> [] \<and> isWordChar (hd ys)")
      case False
      then have "\<not> (ys \<noteq> [] \<and> isWordChar (hd ys))" by blast
      then show ?thesis unfolding rmatch_Plus_then[OF var_failsOn] by (rule if_not_P)
    next
      case t: True
      then have tw: "takeWhile isWordChar ys \<noteq> []" by (cases ys) auto
      show ?thesis
      proof (cases "dropWhile isWordChar ys")
        case Nil
        show ?thesis unfolding rmatch_Plus_then[OF var_failsOn] Nil by simp
      next
        case d: (Cons z zs)
        with assms Cons True tw have "z \<noteq> CU CHR '':''" by (auto simp: varRefLen_def)
        then show ?thesis unfolding rmatch_Plus_then[OF var_failsOn] d by (simp add: isChar_def)
      qed
    qed
    with Cons True show ?thesis by (simp add: varRegEx_def isChar_def)
  qed
qed

lemma rmatch_varRegEx_Some:
  assumes "varRefLen xs = Some n"
  shows "rmatch varRegEx (i, xs, c) = [(i + n, drop n xs, c(1 \<mapsto> ustr '':''))]"
proof -
  from assms obtain ys where xs: "xs = CU CHR ''('' # ys"
    by (cases xs) (auto simp: varRefLen_def split: if_splits)
  let ?w = "takeWhile isWordChar ys"
  from assms xs have tw: "?w \<noteq> []" and n: "n = length ?w + 2"
    by (auto simp: varRefLen_def split: if_splits)
  from assms xs obtain zs where d: "dropWhile isWordChar ys = CU CHR '':'' # zs"
    by (cases "dropWhile isWordChar ys") (auto simp: varRefLen_def split: if_splits)
  from tw have h: "ys \<noteq> [] \<and> isWordChar (hd ys)" by (cases ys) (auto split: if_splits)
  have "drop (Suc (length ?w)) ys = drop 1 (drop (length ?w) ys)" by simp
  also have "\<dots> = zs" by (simp only: drop_takeWhile_len d) simp
  finally have dz: "drop (Suc (length ?w)) ys = zs" .
  have "rmatch (Seq (Plus isWordChar) (Group 1 (Atom (isChar CHR '':'')))) (Suc i, ys, c) =
      [(Suc (Suc i + length ?w), zs, c(1 \<mapsto> ustr '':''))]"
    unfolding rmatch_Plus_then[OF var_failsOn] d using h by (simp add: isChar_def ustr_def)
  then show ?thesis by (simp add: varRegEx_def isChar_def xs n dz)
qed

declare stripVarRefs.simps(2) [simp del]

lemma stripVarRefs_Some:
  "varRefLen (x # xs) = Some n \<Longrightarrow> stripVarRefs (x # xs) = ustr ''(:'' @ stripVarRefs (drop n (x # xs))"
  by (simp add: stripVarRefs.simps(2))

lemma stripVarRefs_None:
  "varRefLen (x # xs) = None \<Longrightarrow> stripVarRefs (x # xs) = x # stripVarRefs xs"
  by (simp add: stripVarRefs.simps(2))

lemma varRefLen_Nil [simp]: "varRefLen [] = None"
  by (simp add: varRefLen_def)

lemma varRefLen_bounds: "varRefLen xs = Some n \<Longrightarrow> 2 < n \<and> n \<le> length xs"
proof -
  assume a: "varRefLen xs = Some n"
  then obtain ys where xs: "xs = CU CHR ''('' # ys"
    by (cases xs) (auto simp: varRefLen_def split: if_splits)
  let ?w = "takeWhile isWordChar ys"
  from a xs have tw: "?w \<noteq> []" and n: "n = length ?w + 2"
    by (auto simp: varRefLen_def split: if_splits)
  from a xs obtain z zs where dz: "dropWhile isWordChar ys = z # zs"
    by (cases "dropWhile isWordChar ys") (auto simp: varRefLen_def split: if_splits)
  have "length (?w @ dropWhile isWordChar ys) = length ?w + length (dropWhile isWordChar ys)"
    by (rule length_append)
  then have "length ys = length ?w + length (dropWhile isWordChar ys)"
    by (simp only: takeWhile_dropWhile_id)
  moreover have "0 < length (dropWhile isWordChar ys)" unfolding dz by simp
  moreover from tw have "0 < length ?w" using length_greater_0_conv by blast
  ultimately have "2 < n \<and> n \<le> Suc (length ys)" using n by linarith
  then show ?thesis by (simp add: xs)
qed

lemma getSubstitution_var:
  "getSubstitution matched str pos (Suc 0) (c(Suc 0 \<mapsto> ustr '':'')) (ustr ''($1'') = ustr ''(:''"
  by (simp add: ustr_def isDigit_def digitVal_def capture_def)

lemma ngroups_varRegEx [simp]: "ngroups varRegEx = 1"
  by (simp add: varRegEx_def)

lemma exec_varRegEx_None:
  "(\<forall>k. varRefLen (drop k xs) = None) \<Longrightarrow> exec varRegEx i xs = None"
  by (simp add: exec_None_iff rmatch_varRegEx_None)

lemma exec_varRegEx_Some:
  assumes "varRefLen (drop k xs) = Some n" "\<forall>j < k. varRefLen (drop j xs) = None"
  shows "exec varRegEx i xs = Some (i + k, i + k + n, [1 \<mapsto> ustr '':''])"
proof -
  from varRefLen_bounds[OF assms(1)] have k: "k < length xs" by (cases "k < length xs") auto
  have "exec varRegEx i (take k xs @ drop k xs) = exec varRegEx (i + length (take k xs)) (drop k xs)"
  proof (rule exec_skip_prefix)
    fix j assume "j < length (take k xs)"
    then have j: "j < k" by simp
    then have "drop j (take k xs) @ drop k xs = drop j xs"
      by (metis append_take_drop_id drop_append less_imp_le_nat length_take min.absorb2 k
          diff_is_0_eq drop0 less_or_eq_imp_le)
    with assms(2) j show "rmatch varRegEx (i + j, drop j (take k xs) @ drop k xs, Map.empty) = []"
      by (simp add: rmatch_varRegEx_None)
  qed
  moreover from k have "length (take k xs) = k" by simp
  moreover from rmatch_varRegEx_Some[OF assms(1), of "i + k" Map.empty]
  have "exec varRegEx (i + k) (drop k xs) = Some (i + k, i + k + n, [1 \<mapsto> ustr '':''])"
    by (simp add: exec.simps)
  ultimately show ?thesis by simp
qed

lemma stripVarRefs_skip:
  "\<forall>j < k. varRefLen (drop j xs) = None \<Longrightarrow> k \<le> length xs \<Longrightarrow>
     stripVarRefs xs = take k xs @ stripVarRefs (drop k xs)"
proof (induction k arbitrary: xs)
  case 0 show ?case by simp
next
  case (Suc k)
  then obtain x xs' where xs: "xs = x # xs'" by (cases xs) auto
  from Suc.prems(1)[rule_format, of 0] xs have "varRefLen (x # xs') = None" by simp
  then have "stripVarRefs xs = x # stripVarRefs xs'" by (simp add: xs stripVarRefs_None)
  moreover have "stripVarRefs xs' = take k xs' @ stripVarRefs (drop k xs')"
  proof (rule Suc.IH)
    show "\<forall>j < k. varRefLen (drop j xs') = None"
    proof (intro allI impI)
      fix j assume "j < k"
      with Suc.prems(1)[rule_format, of "Suc j"] xs show "varRefLen (drop j xs') = None" by simp
    qed
    from Suc.prems(2) xs show "k \<le> length xs'" by simp
  qed
  ultimately show ?case by (simp add: xs)
qed

lemma stripVarRefs_id: "\<forall>k. varRefLen (drop k xs) = None \<Longrightarrow> stripVarRefs xs = xs"
  using stripVarRefs_skip[of "length xs" xs] by simp

lemma first_varRef:
  "\<exists>k. varRefLen (drop k xs) \<noteq> None \<Longrightarrow>
     \<exists>k n. varRefLen (drop k xs) = Some n \<and> (\<forall>j < k. varRefLen (drop j xs) = None)"
proof -
  assume "\<exists>k. varRefLen (drop k xs) \<noteq> None"
  then obtain k where k: "varRefLen (drop k xs) \<noteq> None" ..
  let ?k = "LEAST k. varRefLen (drop k xs) \<noteq> None"
  from k have 1: "varRefLen (drop ?k xs) \<noteq> None" by (rule LeastI)
  have 2: "\<forall>j < ?k. varRefLen (drop j xs) = None" using not_less_Least by blast
  from 1 2 show ?thesis by auto
qed

lemma replaceAllFrom_varRegEx:
  "replaceAllFrom varRegEx (ustr ''($1'') str i xs = stripVarRefs xs"
proof (induction "length xs" arbitrary: xs i rule: less_induct)
  case less
  show ?case
  proof (cases "\<exists>k. varRefLen (drop k xs) \<noteq> None")
    case False
    then have n: "\<forall>k. varRefLen (drop k xs) = None" by simp
    from exec_varRegEx_None[OF n, of i] stripVarRefs_id[OF n] show ?thesis
      by (subst replaceAllFrom.simps) simp
  next
    case True
    from first_varRef[OF this] obtain k n where
      kn: "varRefLen (drop k xs) = Some n" "\<forall>j < k. varRefLen (drop j xs) = None" by blast
    from varRefLen_bounds[OF kn(1)] have b: "2 < n" "n \<le> length (drop k xs)" by simp_all
    then have k: "k < length xs" by simp
    from b have kn_len: "k + n \<le> length xs" by simp
    have e: "exec varRegEx i xs = Some (i + k, i + k + n, [1 \<mapsto> ustr '':''])"
      by (rule exec_varRegEx_Some[OF kn])
    have "length (drop (k + n) xs) < length xs" using b k by simp
    from less[OF this, of "i + k + n"]
    have ih: "replaceAllFrom varRegEx (ustr ''($1'') str (i + k + n) (drop (k + n) xs) =
          stripVarRefs (drop (k + n) xs)" .
    have "replaceAllFrom varRegEx (ustr ''($1'') str i xs =
          take k xs @ ustr ''(:'' @ stripVarRefs (drop (k + n) xs)"
      using b by (subst replaceAllFrom.simps) (simp add: e getSubstitution_var ih)
    moreover have "stripVarRefs xs = take k xs @ stripVarRefs (drop k xs)"
      using kn(2) k by (intro stripVarRefs_skip) simp_all
    moreover from k obtain y ys where d: "drop k xs = y # ys" by (cases "drop k xs") auto
    from kn(1) have "stripVarRefs (drop k xs) = ustr ''(:'' @ stripVarRefs (drop n (drop k xs))"
      unfolding d by (rule stripVarRefs_Some)
    ultimately show ?thesis by (simp add: add.commute)
  qed
qed

lemma stripVariables_eq: "stripVariables t = stripVarRefs t"
  by (simp add: stripVariables_def replaceAll_def replaceAllFrom_varRegEx)

lemma takeWhile_word_paren:
  "takeWhile isWordChar (p @ 0x28 # rest) = takeWhile isWordChar p"
  by (induction p) auto

lemma dropWhile_word_paren:
  "dropWhile isWordChar (p @ 0x28 # rest) = dropWhile isWordChar p @ 0x28 # rest"
  by (induction p) auto

lemma varRefLen_before_paren:
  "p \<noteq> [] \<Longrightarrow> varRefLen (p @ CU CHR ''('' # rest) = varRefLen p"
proof -
  assume "p \<noteq> []"
  then obtain x ys where p: "p = x # ys" by (cases p) auto
  have "(case dropWhile isWordChar ys @ 0x28 # rest of [] \<Rightarrow> False | z # _ \<Rightarrow> z = CU CHR '':'') =
        (case dropWhile isWordChar ys of [] \<Rightarrow> False | z # _ \<Rightarrow> z = CU CHR '':'')"
  proof (cases "dropWhile isWordChar ys")
    case Nil show ?thesis unfolding Nil by simp
  next
    case (Cons z zs) show ?thesis unfolding Cons by simp
  qed
  then show ?thesis
    unfolding p varRefLen_def
    by (simp add: takeWhile_word_paren dropWhile_word_paren)
qed

lemma stripVarRefs_before_paren:
  "stripVarRefs (p @ CU CHR ''('' # rest) = stripVarRefs p @ stripVarRefs (CU CHR ''('' # rest)"
proof (induction "length p" arbitrary: p rule: less_induct)
  case less
  show ?case
  proof (cases p)
    case Nil then show ?thesis by simp
  next
    case (Cons x ys)
    then have pne: "p \<noteq> []" by simp
    show ?thesis
    proof (cases "varRefLen p")
      case None
      with varRefLen_before_paren[OF pne, of rest] Cons
      have "stripVarRefs (p @ CU CHR ''('' # rest) = x # stripVarRefs (ys @ CU CHR ''('' # rest)"
        by (simp add: stripVarRefs_None)
      moreover from None Cons have "stripVarRefs p = x # stripVarRefs ys"
        by (simp add: stripVarRefs_None)
      moreover from Cons have "length ys < length p" by simp
      note less[OF this]
      ultimately show ?thesis by simp
    next
      case (Some n)
      from varRefLen_bounds[OF Some] have n: "n \<le> length p" "0 < n" by simp_all
      from Some varRefLen_before_paren[OF pne, of rest] Cons
      have "stripVarRefs (p @ CU CHR ''('' # rest) =
            ustr ''(:'' @ stripVarRefs (drop n (p @ CU CHR ''('' # rest))"
        by (simp add: stripVarRefs_Some)
      also from n have "drop n (p @ CU CHR ''('' # rest) = drop n p @ CU CHR ''('' # rest" by simp
      also have "stripVarRefs (drop n p @ CU CHR ''('' # rest) =
            stripVarRefs (drop n p) @ stripVarRefs (CU CHR ''('' # rest)"
        using n pne by (intro less) simp
      finally have "stripVarRefs (p @ CU CHR ''('' # rest) =
            ustr ''(:'' @ stripVarRefs (drop n p) @ stripVarRefs (CU CHR ''('' # rest)" .
      moreover from Some Cons have "stripVarRefs p = ustr ''(:'' @ stripVarRefs (drop n p)"
        by (simp add: stripVarRefs_Some)
      ultimately show ?thesis by simp
    qed
  qed
qed

lemma varRefLen_ref:
  assumes "v \<noteq> []" "list_all isWordChar v"
  shows "varRefLen (CU CHR ''('' # v @ CU CHR '':'' # post) = Some (length v + 2)"
proof -
  from assms(2) have "\<forall>x \<in> set v. isWordChar x" by (simp add: list_all_iff)
  then have "takeWhile isWordChar (v @ CU CHR '':'' # post) = v"
    and "dropWhile isWordChar (v @ CU CHR '':'' # post) = CU CHR '':'' # post"
    by (simp_all add: takeWhile_append2 dropWhile_append2)
  with assms(1) show ?thesis by (simp add: varRefLen_def)
qed

lemma stripVarRefs_ref:
  assumes "v \<noteq> []" "list_all isWordChar v"
  shows "stripVarRefs (pre @ ustr ''('' @ v @ ustr '':'' @ post) =
           stripVarRefs pre @ ustr ''(:'' @ stripVarRefs post"
proof -
  have "stripVarRefs (CU CHR ''('' # v @ CU CHR '':'' # post) = ustr ''(:'' @ stripVarRefs post"
    using stripVarRefs_Some[OF varRefLen_ref[OF assms, of post]] by simp
  with stripVarRefs_before_paren[of pre "v @ CU CHR '':'' # post"] show ?thesis
    by (simp add: ustr_def)
qed

text \<open>After stripping, no node reference carries a variable.\<close>

lemma word_prefix_stripVarRefs:
  "takeWhile isWordChar (stripVarRefs xs) = takeWhile isWordChar xs \<and>
   (case dropWhile isWordChar (stripVarRefs xs) of [] \<Rightarrow> False | z # _ \<Rightarrow> z = CU CHR '':'') =
   (case dropWhile isWordChar xs of [] \<Rightarrow> False | z # _ \<Rightarrow> z = CU CHR '':'')"
proof (induction xs)
  case Nil show ?case by simp
next
  case (Cons x xs)
  show ?case
  proof (cases "varRefLen (x # xs)")
    case None
    with Cons show ?thesis by (simp add: stripVarRefs_None)
  next
    case (Some n)
    then have "x = CU CHR ''(''" by (auto simp: varRefLen_def split: if_splits)
    with Some show ?thesis by (simp add: stripVarRefs_Some ustr_def)
  qed
qed

lemma varRefLen_stripVarRefs_hd:
  "varRefLen (x # xs) = None \<Longrightarrow> varRefLen (x # stripVarRefs xs) = None"
  using word_prefix_stripVarRefs[of xs] by (auto simp: varRefLen_def split: if_splits)

lemma no_varRef_left: "varRefLen (drop k (stripVarRefs xs)) = None"
proof (induction "length xs" arbitrary: xs k rule: less_induct)
  case less
  show ?case
  proof (cases xs)
    case Nil then show ?thesis by simp
  next
    case (Cons x ys)
    show ?thesis
    proof (cases "varRefLen (x # ys)")
      case None
      then have s: "stripVarRefs xs = x # stripVarRefs ys" by (simp add: Cons stripVarRefs_None)
      show ?thesis
      proof (cases k)
        case 0 with s varRefLen_stripVarRefs_hd[OF None] show ?thesis by simp
      next
        case (Suc k')
        from Cons have "length ys < length xs" by simp
        from less[OF this, of k'] s Suc show ?thesis by simp
      qed
    next
      case (Some n)
      then have s: "stripVarRefs xs = CU CHR ''('' # CU CHR '':'' # stripVarRefs (drop n xs)"
        by (simp add: Cons stripVarRefs_Some ustr_def)
      from varRefLen_bounds[OF Some] Cons have "length (drop n xs) < length xs" by simp
      note ih = less[OF this]
      show ?thesis
      proof (cases k)
        case 0 with s show ?thesis by (simp add: varRefLen_def)
      next
        case (Suc k')
        show ?thesis
        proof (cases k')
          case 0 with Suc s show ?thesis by (simp add: varRefLen_def)
        next
          case (Suc k'')
          with \<open>k = Suc k'\<close> s ih[of k''] show ?thesis by simp
        qed
      qed
    qed
  qed
qed

section \<open>Injecting the properties\<close>

lemma labelRegEx_alt:
  "labelRegEx = Seq (Atom (isChar CHR '':'')) (Seq (Group 1 (Alt (Plus isWordChar) quotedRe)) restRe)"
  by (simp add: labelRegEx_def restRe_def quotedRe_def)

lemma look_failsOn: "failsOn isSpace (Lookahead (Atom (isChar CHR '')'')))"
  by (rule failsOnI) (auto simp: isChar_def)

lemma rmatch_restRe:
  "rmatch restRe (j, r, c) =
     (case dropWhile isSpace r of
        [] \<Rightarrow> []
      | z # zs \<Rightarrow> if z = CU CHR '')'' then [(j + length (takeWhile isSpace r), z # zs, c)] else [])"
proof (cases "dropWhile isSpace r")
  case Nil
  show ?thesis unfolding restRe_def rmatch_Star_then[OF look_failsOn] Nil by simp
next
  case (Cons z zs)
  show ?thesis unfolding restRe_def rmatch_Star_then[OF look_failsOn] Cons
    by (simp add: isChar_def)
qed

lemma rmatch_Seq_Atom:
  "rmatch (Seq (Atom p) k) (i, xs, c) =
     (case xs of [] \<Rightarrow> [] | x # xs' \<Rightarrow> if p x then rmatch k (Suc i, xs', c) else [])"
  by (cases xs) simp_all

lemma rmatch_restRe_word: "isWordChar y \<Longrightarrow> rmatch restRe (j, y # ys, c) = []"
  using word_not_space[of y] by (auto simp: rmatch_restRe)

lemma quote_failsOn: "failsOn (isNotChar CHR ''`'') (Atom (isChar CHR ''`''))"
  by (rule failsOnI) (auto simp: isChar_def isNotChar_def)

lemma rmatch_quotedRe:
  "rmatch quotedRe (j, ys, c) =
     (case ys of
        [] \<Rightarrow> []
      | y # zs \<Rightarrow>
          if y = CU CHR ''`'' \<and> takeWhile (isNotChar CHR ''`'') zs \<noteq> [] \<and>
             dropWhile (isNotChar CHR ''`'') zs \<noteq> []
          then [(j + length (takeWhile (isNotChar CHR ''`'') zs) + 2,
                 tl (dropWhile (isNotChar CHR ''`'') zs), c)]
          else [])"
proof (cases ys)
  case Nil then show ?thesis by (simp add: quotedRe_def)
next
  case (Cons y zs)
  show ?thesis
  proof (cases "y = CU CHR ''`''")
    case False with Cons show ?thesis by (simp add: quotedRe_def isChar_def)
  next
    case True
    let ?q = "takeWhile (isNotChar CHR ''`'') zs"
    let ?d = "dropWhile (isNotChar CHR ''`'') zs"
    have "rmatch (Seq (Plus (isNotChar CHR ''`'')) (Atom (isChar CHR ''`''))) (Suc j, zs, c) =
         (if ?q \<noteq> [] \<and> ?d \<noteq> [] then [(j + length ?q + 2, tl ?d, c)] else [])"
    proof (cases ?d)
      case Nil
      show ?thesis unfolding rmatch_Plus_then[OF quote_failsOn] Nil by simp
    next
      case d: (Cons z zs')
      from hd_dropWhile[of "isNotChar CHR ''`''" zs] d have "z = CU CHR ''`''"
        by (simp add: isNotChar_def)
      then show ?thesis unfolding rmatch_Plus_then[OF quote_failsOn] d
        by (cases zs) (auto simp: isChar_def)
    qed
    with Cons True show ?thesis by (simp add: quotedRe_def isChar_def)
  qed
qed

lemma rmatch_label_body:
  "rmatch (Seq (Group 1 (Alt (Plus isWordChar) quotedRe)) restRe) (j, ys, c) =
     (case labelLen ys of
        None \<Rightarrow> []
      | Some n \<Rightarrow> rmatch restRe (j + n, drop n ys, c(1 \<mapsto> take n ys)))"
proof (cases ys)
  case Nil then show ?thesis by (simp add: labelLen_def rmatch.simps(8) rmatch_quotedRe)
next
  case (Cons y zs)
  show ?thesis
  proof (cases "isWordChar y")
    case True
    let ?f = "\<lambda>s. rmatch restRe (case s of (k, ws, c') \<Rightarrow> (k, ws, c'(1 \<mapsto> take (k - j) ys)))"
    have q: "rmatch quotedRe (j, ys, c) = []" using True Cons by (auto simp: rmatch_quotedRe)
    have "concat (map ?f (star_greedy isWordChar (Suc j, zs, c))) =
          ?f (Suc j + length (takeWhile isWordChar zs), dropWhile isWordChar zs, c)"
      by (rule star_greedy_then) (simp add: rmatch_restRe_word)
    moreover have "dropWhile isWordChar zs = drop (length (takeWhile isWordChar ys)) ys"
      using True Cons by (simp add: drop_takeWhile_len[symmetric])
    ultimately show ?thesis using True Cons q
      by (simp add: labelLen_def rmatch.simps(8) comp_def)
  next
    case False
    have w: "rmatch (Plus isWordChar) (j, ys, c) = []" using False Cons by (simp add: rmatch.simps(8))
    let ?q = "takeWhile (isNotChar CHR ''`'') zs"
    let ?d = "dropWhile (isNotChar CHR ''`'') zs"
    show ?thesis
    proof (cases "y = CU CHR ''`'' \<and> ?q \<noteq> [] \<and> ?d \<noteq> []")
      case f: False
      then have "rmatch quotedRe (j, ys, c) = []" unfolding rmatch_quotedRe Cons by auto
      moreover from f False Cons have "labelLen ys = None" by (auto simp: labelLen_def)
      ultimately show ?thesis using w by simp
    next
      case t: True
      then have l: "labelLen ys = Some (length ?q + 2)" using False Cons by (simp add: labelLen_def)
      from t have r: "rmatch quotedRe (j, ys, c) = [(j + length ?q + 2, tl ?d, c)]"
        unfolding rmatch_quotedRe Cons by simp
      have "tl ?d = drop 1 (drop (length ?q) zs)" by (simp only: drop_takeWhile_len drop_Suc drop_0 One_nat_def)
      then have d: "tl ?d = drop (length ?q + 2) ys" using Cons by simp
      show ?thesis using w r l d by simp
    qed
  qed
qed

lemma rmatch_labelRegEx_None:
  assumes "markerLen xs = None"
  shows "rmatch labelRegEx (i, xs, c) = []"
proof (cases xs)
  case Nil then show ?thesis by (simp add: labelRegEx_alt)
next
  case (Cons x ys)
  show ?thesis
  proof (cases "x = CU CHR '':''")
    case False with Cons show ?thesis by (simp add: labelRegEx_alt isChar_def)
  next
    case True
    show ?thesis
    proof (cases "labelLen ys")
      case None
      show ?thesis
        unfolding labelRegEx_alt rmatch_Seq_Atom rmatch_label_body Cons by (simp add: None)
    next
      case (Some n)
      have "rmatch restRe (Suc i + n, drop n ys, c') = []" for c'
      proof (cases "dropWhile isSpace (drop n ys)")
        case Nil show ?thesis unfolding rmatch_restRe Nil by simp
      next
        case d: (Cons z zs)
        with assms Cons True Some have "z \<noteq> CU CHR '')''" by (auto simp: markerLen_def)
        then show ?thesis unfolding rmatch_restRe d by simp
      qed
      then show ?thesis
        unfolding labelRegEx_alt rmatch_Seq_Atom rmatch_label_body Cons by (simp add: Some)
    qed
  qed
qed

lemma rmatch_labelRegEx_Some:
  assumes "markerLen xs = Some n"
  shows "\<exists>c'. rmatch labelRegEx (i, xs, c) = [(i + n, drop n xs, c')]"
proof -
  from assms obtain ys where xs: "xs = CU CHR '':'' # ys"
    by (cases xs) (auto simp: markerLen_def split: if_splits)
  from assms xs obtain l where l: "labelLen ys = Some l"
    by (cases "labelLen ys") (auto simp: markerLen_def)
  let ?w = "takeWhile isSpace (drop l ys)"
  from assms xs l obtain zs where d: "dropWhile isSpace (drop l ys) = CU CHR '')'' # zs"
    and n: "n = 1 + l + length ?w"
    by (cases "dropWhile isSpace (drop l ys)") (auto simp: markerLen_def split: if_splits)
  have "drop (l + length ?w) ys = dropWhile isSpace (drop l ys)" by (rule drop_add_takeWhile)
  then have dn: "drop n xs = CU CHR '')'' # zs" by (simp add: xs n d)
  have "rmatch restRe (Suc i + l, drop l ys, c') = [(Suc i + l + length ?w, CU CHR '')'' # zs, c')]" for c'
    unfolding rmatch_restRe d by simp
  then show ?thesis
    unfolding labelRegEx_alt rmatch_Seq_Atom rmatch_label_body xs
    using dn by (simp add: isChar_def l n xs)
qed

lemma getSubstitution_literal:
  "literalTemplate t \<Longrightarrow> getSubstitution matched str pos m caps t = t"
  by (induction t rule: literalTemplate.induct) (auto simp: isSpecial_def)

lemma literalTemplate_append:
  "literalTemplate a \<Longrightarrow> literalTemplate b \<Longrightarrow>
     a = [] \<or> last a \<noteq> CU CHR ''$'' \<or> b = [] \<or> \<not> isSpecial (hd b) \<Longrightarrow>
     literalTemplate (a @ b)"
proof (induction a rule: literalTemplate.induct)
  case 1 then show ?case by simp
next
  case (2 c) then show ?case by (cases b) auto
next
  case (3 c d t) then show ?case by auto
qed

lemma literalTemplate_body:
  assumes "literalTemplate props"
  shows "literalTemplate (ustr '' { '' @ props @ ustr '' }'')"
proof -
  have b: "literalTemplate (ustr '' }'')" "literalTemplate (ustr '' { '')"
    by (simp_all add: ustr_def)
  have "literalTemplate (props @ ustr '' }'')"
    by (rule literalTemplate_append[OF assms b(1)]) (simp add: ustr_def isSpecial_def isDigit_def)
  from literalTemplate_append[OF b(2) this] show ?thesis
    by (simp add: ustr_def)
qed

lemma getSubstitution_body:
  assumes "literalTemplate props"
  shows "getSubstitution matched str pos m caps (ustr ''$& { '' @ props @ ustr '' }'') =
           matched @ ustr '' { '' @ props @ ustr '' }''"
proof -
  have "ustr ''$& { '' @ props @ ustr '' }'' =
        CU CHR ''$'' # CU CHR ''&'' # (ustr '' { '' @ props @ ustr '' }'')"
    by (simp add: ustr_def)
  then show ?thesis
    using getSubstitution_literal[OF literalTemplate_body[OF assms], of matched str pos m caps]
    by simp
qed

lemma markerLen_Nil [simp]: "markerLen [] = None"
  by (simp add: markerLen_def)

lemma markerLen_bound: "markerLen xs = Some n \<Longrightarrow> n < length xs"
proof -
  assume a: "markerLen xs = Some n"
  from rmatch_labelRegEx_Some[OF a, of 0 Map.empty] obtain c' where
    r: "rmatch labelRegEx (0, xs, Map.empty) = [(0 + n, drop n xs, c')]" ..
  from a obtain ys where xs: "xs = CU CHR '':'' # ys"
    by (cases xs) (auto simp: markerLen_def split: if_splits)
  from a xs obtain l where l: "labelLen ys = Some l" by (cases "labelLen ys") (auto simp: markerLen_def)
  from a xs l obtain zs where d: "dropWhile isSpace (drop l ys) = CU CHR '')'' # zs"
    and n: "n = 1 + l + length (takeWhile isSpace (drop l ys))"
    by (cases "dropWhile isSpace (drop l ys)") (auto simp: markerLen_def split: if_splits)
  have "drop (l + length (takeWhile isSpace (drop l ys))) ys = dropWhile isSpace (drop l ys)"
    by (rule drop_add_takeWhile)
  with d have "drop n xs \<noteq> []" by (simp add: xs n)
  then show ?thesis by simp
qed

lemma exec_labelRegEx_None:
  "\<forall>j. markerLen (drop j xs) = None \<Longrightarrow> exec labelRegEx i xs = None"
  by (simp add: exec_None_iff rmatch_labelRegEx_None)

lemma drop_take_drop: "j \<le> k \<Longrightarrow> drop j (take k xs) @ drop k xs = drop j xs"
  by (metis append_take_drop_id drop_take take_add le_add_diff_inverse drop_drop add.commute
      append_eq_conv_conj append.assoc)

lemma exec_labelRegEx_Some:
  assumes "markerLen (drop j xs) = Some n" "\<forall>j' < j. markerLen (drop j' xs) = None"
  shows "\<exists>c'. exec labelRegEx i xs = Some (i + j, i + j + n, c')"
proof -
  from markerLen_bound[OF assms(1)] have j: "j < length xs" by (cases "j < length xs") auto
  have "exec labelRegEx i (take j xs @ drop j xs) = exec labelRegEx (i + length (take j xs)) (drop j xs)"
  proof (rule exec_skip_prefix)
    fix k assume "k < length (take j xs)"
    then have k: "k < j" by simp
    then have "drop k (take j xs) @ drop j xs = drop k xs" by (intro drop_take_drop) simp
    with assms(2) k show "rmatch labelRegEx (i + k, drop k (take j xs) @ drop j xs, Map.empty) = []"
      by (simp add: rmatch_labelRegEx_None)
  qed
  moreover from j have "length (take j xs) = j" by simp
  moreover from rmatch_labelRegEx_Some[OF assms(1), of "i + j" Map.empty] obtain c' where
    "rmatch labelRegEx (i + j, drop j xs, Map.empty) = [(i + j + n, drop n (drop j xs), c')]" ..
  then have "exec labelRegEx (i + j) (drop j xs) = Some (i + j, i + j + n, c')"
    by (rule exec_here)
  ultimately show ?thesis by simp
qed

lemma replaceFirst_label_none:
  "\<forall>j. markerLen (drop j t) = None \<Longrightarrow> replaceFirst labelRegEx tmpl t = t"
  by (simp add: replaceFirst_def exec_labelRegEx_None)

lemma replaceFirst_label_first:
  assumes "literalTemplate props"
    and "markerLen (drop j t) = Some n" "\<forall>j' < j. markerLen (drop j' t) = None"
  shows "replaceFirst labelRegEx (ustr ''$& { '' @ props @ ustr '' }'') t =
           take (j + n) t @ ustr '' { '' @ props @ ustr '' }'' @ drop (j + n) t"
proof -
  from exec_labelRegEx_Some[OF assms(2,3), of 0] obtain c' where
    e: "exec labelRegEx 0 t = Some (j, j + n, c')" by auto
  show ?thesis
    by (simp add: replaceFirst_def e getSubstitution_body[OF assms(1)] take_add)
qed

lemma labelLen_word:
  assumes "lab \<noteq> []" "list_all isWordChar lab" "rest = [] \<or> \<not> isWordChar (hd rest)"
  shows "labelLen (lab @ rest) = Some (length lab)"
proof -
  from assms(2) have a: "\<forall>x \<in> set lab. isWordChar x" by (simp add: list_all_iff)
  from assms(3) have "takeWhile isWordChar rest = []" by (cases rest) auto
  with a have "takeWhile isWordChar (lab @ rest) = lab" by (simp add: takeWhile_append2)
  with assms(1) a show ?thesis by (cases lab) (auto simp: labelLen_def)
qed

lemma markerLen_word:
  assumes "lab \<noteq> []" "list_all isWordChar lab" "list_all isSpace ws"
  shows "markerLen (ustr '':'' @ lab @ ws @ ustr '')'' @ post) = Some (1 + length lab + length ws)"
proof -
  let ?rest = "ws @ CU CHR '')'' # post"
  have "?rest = [] \<or> \<not> isWordChar (hd ?rest)"
    using assms(3) word_not_space[of "hd ws"] by (cases ws) auto
  from labelLen_word[OF assms(1,2) this] have l: "labelLen (lab @ ?rest) = Some (length lab)" .
  from assms(3) have w: "\<forall>x \<in> set ws. isSpace x" by (simp add: list_all_iff)
  then have "takeWhile isSpace ?rest = ws" "dropWhile isSpace ?rest = CU CHR '')'' # post"
    by (simp_all add: takeWhile_append2 dropWhile_append2)
  with l show ?thesis by (simp add: markerLen_def ustr_def)
qed

lemma injectProperties_first:
  assumes "literalTemplate props"
    and "markerLen (drop j (replaceFirst whereRegEx [] s)) = Some n"
    and "\<forall>j' < j. markerLen (drop j' (replaceFirst whereRegEx [] s)) = None"
  shows "injectProperties props s =
           take (j + n) (replaceFirst whereRegEx [] s) @ ustr '' { '' @ props @ ustr '' }'' @
           drop (j + n) (replaceFirst whereRegEx [] s)"
  unfolding injectProperties_def by (rule replaceFirst_label_first[OF assms])

lemma marker_closing:
  assumes "markerLen xs = Some n"
  shows "\<exists>rest. drop n xs = CU CHR '')'' # rest"
proof -
  from assms obtain ys where xs: "xs = CU CHR '':'' # ys"
    by (cases xs) (auto simp: markerLen_def split: if_splits)
  from assms xs obtain l where l: "labelLen ys = Some l" by (cases "labelLen ys") (auto simp: markerLen_def)
  from assms xs l obtain zs where d: "dropWhile isSpace (drop l ys) = CU CHR '')'' # zs"
    and n: "n = 1 + l + length (takeWhile isSpace (drop l ys))"
    by (cases "dropWhile isSpace (drop l ys)") (auto simp: markerLen_def split: if_splits)
  have "drop (l + length (takeWhile isSpace (drop l ys))) ys = dropWhile isSpace (drop l ys)"
    by (rule drop_add_takeWhile)
  with d show ?thesis by (simp add: xs n)
qed

lemma injectProperties_shape:
  assumes "literalTemplate props" "lab \<noteq> []" "list_all isWordChar lab" "list_all isSpace ws"
    and t: "replaceFirst whereRegEx [] s = pre @ ustr '':'' @ lab @ ws @ ustr '')'' @ post"
    and first: "\<forall>j' < length pre. markerLen (drop j' (pre @ ustr '':'' @ lab @ ws @ ustr '')'' @ post)) = None"
  shows "injectProperties props s =
           pre @ ustr '':'' @ lab @ ws @ ustr '' { '' @ props @ ustr '' }'' @ ustr '')'' @ post"
proof -
  let ?m = "ustr '':'' @ lab @ ws @ ustr '')'' @ post"
  have m: "markerLen (drop (length pre) (replaceFirst whereRegEx [] s)) = Some (1 + length lab + length ws)"
    unfolding t using markerLen_word[OF assms(2,3,4), of post] by simp
  have "injectProperties props s =
           take (length pre + (1 + length lab + length ws)) (replaceFirst whereRegEx [] s) @
           ustr '' { '' @ props @ ustr '' }'' @
           drop (length pre + (1 + length lab + length ws)) (replaceFirst whereRegEx [] s)"
    using first by (intro injectProperties_first[OF assms(1) m]) (simp add: t)
  then show ?thesis by (simp add: t ustr_def)
qed

section \<open>A node pattern with one condition\<close>

lemmas class_num =
  isSpace_def[of "numeral n"] isLineTerminator_def[of "numeral n"] isWordChar_def[of "numeral n"]
  isDigit_def[of "numeral n"] for n

lemma identD: "ident s \<Longrightarrow> c \<in> set s \<Longrightarrow> isWordChar c"
  by (auto simp: ident_def list_all_iff)

lemma ident_not_Nil: "ident s \<Longrightarrow> s \<noteq> []"
  by (simp add: ident_def)

lemma ident_all: "ident s \<Longrightarrow> list_all isWordChar s"
  by (simp add: ident_def)

lemma word_lits:
  "isWordChar c \<Longrightarrow> c \<noteq> 0x0A \<and> c \<noteq> 0x28 \<and> c \<noteq> 0x29 \<and> c \<noteq> 0x3A \<and> c \<noteq> 0x24 \<and> c \<noteq> 0x2E \<and> c \<noteq> 0x3D \<and> c \<noteq> 0x20"
  by auto

lemma ident_token: "ident s \<Longrightarrow> token s"
  using word_not_space word_lits by (auto simp: ident_def token_def list_all_iff)

lemma padLines_no_nl: "0x0A \<notin> set s \<Longrightarrow> padLines s = s"
  by (induction s) auto

lemma padBlock_no_nl: "0x0A \<notin> set s \<Longrightarrow> padBlock s = 0x09 # s"
  by (simp add: padBlock_padLines padLines_no_nl)

lemma afterMatch_padded:
  assumes "list_all isSpace ind" "r \<noteq> []" "\<not> isSpace (hd r)"
  shows "afterMatch (ind @ ustr ''MATCH '' @ r) = r"
proof -
  from assms obtain y ys where r: "r = y # ys" and y: "\<not> isSpace y" by (cases r) auto
  have "dropWhile isSpace (ind @ ustr ''MATCH '' @ r) = dropWhile isSpace (ustr ''MATCH '' @ r)"
    using assms(1) by (intro dropWhile_append2) (simp add: list_all_iff)
  also have "\<dots> = ustr ''MATCH '' @ r" by (simp add: ustr_def class_num)
  finally have d: "dropWhile isSpace (ind @ ustr ''MATCH '' @ r) = ustr ''MATCH '' @ r" .
  show ?thesis
    unfolding afterMatch_def d using y by (simp add: Let_def ustr_def r ci_def class_num)
qed

lemma ciPrefix_Cons_iff:
  "ciPrefix (a # as) ys \<longleftrightarrow> (\<exists>y ys'. ys = y # ys' \<and> ci a y \<and> ciPrefix as ys')"
  by (cases ys) auto

lemma ci_W: "ci CHR ''W'' x \<Longrightarrow> \<not> isSpace x"
  by (rule ci_letter_not_space[of "CHR ''W''"]) simp_all

lemma ci_H: "ci CHR ''H'' x \<Longrightarrow> \<not> isSpace x"
  by (rule ci_letter_not_space[of "CHR ''H''"]) simp_all

lemma ci_E: "ci CHR ''E'' x \<Longrightarrow> \<not> isSpace x"
  by (rule ci_letter_not_space[of "CHR ''E''"]) simp_all

lemma ci_R: "ci CHR ''R'' x \<Longrightarrow> \<not> isSpace x"
  by (rule ci_letter_not_space[of "CHR ''R''"]) simp_all

lemma whereKeyword_shape:
  assumes "whereKeyword ys"
  obtains c1 c2 c3 c4 c5 s rest where "ys = [c1, c2, c3, c4, c5] @ s # rest"
    "\<forall>c \<in> set [c1, c2, c3, c4, c5]. \<not> isSpace c" "ci CHR ''E'' c5" "isSpace s"
proof -
  from assms have "ciPrefix ''WHERE'' ys" and d: "drop 5 ys \<noteq> []" "isSpace (hd (drop 5 ys))"
    by (simp_all add: whereKeyword_def)
  then obtain c1 c2 c3 c4 c5 t where ys: "ys = c1 # c2 # c3 # c4 # c5 # t"
    and c: "ci CHR ''W'' c1" "ci CHR ''H'' c2" "ci CHR ''E'' c3" "ci CHR ''R'' c4" "ci CHR ''E'' c5"
    by (auto simp: ciPrefix_Cons_iff)
  from d ys obtain s rest where t: "t = s # rest" and s: "isSpace s" by (cases t) auto
  show ?thesis
    by (rule that[of c1 c2 c3 c4 c5 s rest])
       (use ys t s c in \<open>auto dest: ci_W ci_H ci_E ci_R\<close>)
qed

lemma first_space_unique:
  assumes "x @ s # r = y @ t # q" "\<forall>c \<in> set x. \<not> isSpace c" "\<forall>c \<in> set y. \<not> isSpace c"
    "isSpace s" "isSpace t"
  shows "x = y"
proof -
  have "takeWhile (\<lambda>c. \<not> isSpace c) (x @ s # r) = x"
    using assms(2,4) by (simp add: takeWhile_append2)
  moreover have "takeWhile (\<lambda>c. \<not> isSpace c) (y @ t # q) = y"
    using assms(3,5) by (simp add: takeWhile_append2)
  ultimately show ?thesis using assms(1) by simp
qed

lemma no_whereKeyword_in_node:
  assumes u: "\<forall>c \<in> set u. \<not> isSpace c" "u \<noteq> []" "\<not> ci CHR ''E'' (last u)" and sp: "isSpace s"
    and j: "j \<le> length u"
  shows "\<not> whereKeyword (drop j (u @ s # w))"
proof
  assume k: "whereKeyword (drop j (u @ s # w))"
  from j have d: "drop j (u @ s # w) = drop j u @ s # w" by simp
  from k obtain c1 c2 c3 c4 c5 t rest where
    ys: "drop j (u @ s # w) = [c1, c2, c3, c4, c5] @ t # rest"
    and c: "\<forall>c \<in> set [c1, c2, c3, c4, c5]. \<not> isSpace c" "ci CHR ''E'' c5" "isSpace t"
    by (rule whereKeyword_shape)
  have "\<forall>c \<in> set (drop j u). \<not> isSpace c" using u(1) by (auto dest: in_set_dropD)
  from first_space_unique[OF ys[unfolded d] this c(1) sp c(3)]
  have x: "drop j u = [c1, c2, c3, c4, c5]" .
  then have "drop j u \<noteq> []" by simp
  then have "last (drop j u) = last u" by simp
  with x c(2) u(3) show False by simp
qed

lemma whereTail_clause:
  assumes "cond \<noteq> []" "\<not> isSpace (hd cond)" "list_all isDot cond"
  shows "whereTail (ustr ''WHERE '' @ cond) = Some cond"
proof -
  from assms(1,2) obtain y ys where c: "cond = y # ys" "\<not> isSpace y" by (cases cond) auto
  with assms(3) show ?thesis
    by (simp add: whereTail_def ustr_def ci_def)
qed

lemma firstWhere_node:
  assumes u: "\<forall>c \<in> set u. \<not> isSpace c" "u \<noteq> []" "\<not> ci CHR ''E'' (last u)"
    and cond: "cond \<noteq> []" "\<not> isSpace (hd cond)" "list_all isDot cond"
  shows "firstWhere (u @ ustr '' WHERE '' @ cond) = Some (Suc (length u), cond)"
proof -
  let ?s = "u @ ustr '' WHERE '' @ cond"
  have s: "?s = u @ CU CHR '' '' # (ustr ''WHERE '' @ cond)" by (simp add: ustr_def)
  have "whereTail (drop (Suc (length u)) ?s) = Some cond"
    unfolding s using whereTail_clause[OF cond] by simp
  moreover have "\<forall>j < Suc (length u). whereTail (drop j ?s) = None"
  proof (intro allI impI)
    fix j assume "j < Suc (length u)"
    then have "j \<le> length u" by simp
    from no_whereKeyword_in_node[OF u _ this, of "CU CHR '' ''" "ustr ''WHERE '' @ cond"]
    have "\<not> whereKeyword (drop j ?s)" unfolding s by simp
    then show "whereTail (drop j ?s) = None"
      by (cases "whereTail (drop j ?s)") (auto dest: whereTail_keyword)
  qed
  ultimately show ?thesis by (rule firstWhere_first)
qed

lemma isDot_not_space: "\<not> isSpace c \<Longrightarrow> isDot c"
  by (auto simp: isDot_def isSpace_def)

lemma literalTemplate_no_dollar: "CU CHR ''$'' \<notin> set t \<Longrightarrow> literalTemplate t"
  by (induction t rule: literalTemplate.induct) auto

lemma varRefLen_no_paren: "CU CHR ''('' \<notin> set t \<Longrightarrow> varRefLen (drop k t) = None"
proof -
  assume a: "CU CHR ''('' \<notin> set t"
  show ?thesis
  proof (cases "drop k t")
    case Nil then show ?thesis by simp
  next
    case (Cons x xs)
    then have "x \<in> set t" using in_set_dropD[of x k t] by simp
    with a have "x \<noteq> CU CHR ''(''" by auto
    with Cons show ?thesis by (simp add: varRefLen_def)
  qed
qed

lemma markerLen_no_colon: "xs = [] \<or> hd xs \<noteq> CU CHR '':'' \<Longrightarrow> markerLen xs = None"
  by (cases xs) (auto simp: markerLen_def)

lemma markerLen_prefix_none:
  assumes "0x3A \<notin> set pre" "j < length pre"
  shows "markerLen (drop j (pre @ rest)) = None"
proof -
  from assms(2) have "drop j (pre @ rest) = (pre ! j # drop (Suc j) pre) @ rest"
    by (simp add: Cons_nth_drop_Suc)
  moreover from nth_mem[OF assms(2)] assms(1) have "pre ! j \<noteq> 0x3A" by metis
  ultimately show ?thesis by (simp add: markerLen_def)
qed

lemma ident_lits:
  assumes "ident s"
  shows "0x0A \<notin> set s" "0x28 \<notin> set s" "0x29 \<notin> set s" "0x3A \<notin> set s" "0x24 \<notin> set s"
    "0x2E \<notin> set s" "0x3D \<notin> set s" "0x20 \<notin> set s"
  using identD[OF assms] not_word_lits by blast+

lemma single_conditions:
  assumes "ident b" "ident p" "plainValue val"
  shows "properties (conditions (b @ ustr ''.'' @ p @ ustr '' = '' @ val)) = p @ ustr '': '' @ val"
proof -
  have sc: "simpleCondition (b, p, val)"
    using assms ident_token[of b] ident_token[of p] identD[of p "CU CHR ''.''"]
    by (auto simp: simpleCondition_def plainValue_def)
  have sep: "andSeparator (ustr '' AND '')"
    by (simp add: andSeparator_def andSepLen_def Let_def ustr_def ci_def class_num)
  from properties_of_conditions[OF sep, of "[(b, p, val)]"] sc show ?thesis
    by (simp add: conditionText_def)
qed

lemma single_transform:
  assumes a: "ident a" and lab: "ident lab" and b: "ident b" and p: "ident p"
    and val: "plainValue val"
    and ind: "list_all isSpace ind"
  shows "transformCypherQuery
           (ind @ ustr ''MATCH '' @ nodeText a lab @ ustr '' WHERE '' @ b @ ustr ''.'' @ p @ ustr '' = '' @ val) =
         Inr (ustr ''(:'' @ lab @ ustr '' { '' @ p @ ustr '': '' @ val @ ustr '' }) '')"
proof -
  let ?u = "nodeText a lab"
  let ?cond = "b @ ustr ''.'' @ p @ ustr '' = '' @ val"
  let ?S = "?u @ ustr '' WHERE '' @ ?cond"
  let ?props = "p @ ustr '': '' @ val"
  note w = identD[OF a] identD[OF lab] identD[OF b] identD[OF p]
  note il = ident_lits[OF a] ident_lits[OF lab] ident_lits[OF b] ident_lits[OF p]
  from val have tv: "token val" and lt: "literalTemplate val" and np: "CU CHR ''('' \<notin> set val"
    and lv: "last val \<noteq> CU CHR '')''" by (simp_all add: plainValue_def)
  have vne: "val \<noteq> []" using tv by (rule token_not_Nil)
  have vsp: "\<forall>c \<in> set val. \<not> isSpace c" using tokenD[OF tv] by blast
  have wsp: "\<forall>c \<in> set a \<union> set lab \<union> set b \<union> set p. \<not> isSpace c"
    using w word_not_space by blast
  \<comment> \<open>indentation and MATCH\<close>
  have S: "?S \<noteq> []" "\<not> isSpace (hd ?S)" by (simp_all add: nodeText_def ustr_def)
  have am: "afterMatch (ind @ ustr ''MATCH '' @ ?S) = ?S"
    using afterMatch_padded[OF ind S] by simp
  \<comment> \<open>the WHERE clause\<close>
  have u: "\<forall>c \<in> set ?u. \<not> isSpace c" "?u \<noteq> []" "\<not> ci CHR ''E'' (last ?u)"
    using wsp by (auto simp: nodeText_def ustr_def ci_def canonicalize_def)
  from ident_not_Nil[OF b] obtain b0 bs where b0: "b = b0 # bs" by (cases b) auto
  have dots: "\<forall>c \<in> set a \<union> set lab \<union> set b \<union> set p \<union> set val. isDot c"
    using wsp vsp isDot_not_space by blast
  have cond: "?cond \<noteq> []" "\<not> isSpace (hd ?cond)" "list_all isDot ?cond"
    using wsp b0 dots by (auto simp: list_all_iff ustr_def isDot_def isLineTerminator_def)
  have fw: "firstWhere ?S = Some (Suc (length ?u), ?cond)"
    by (rule firstWhere_node[OF u cond])
  have hdc: "hd ?cond \<noteq> CU CHR ''(''" using il(18) b0 by auto
  have "last ?cond = last val" using vne by (simp add: ustr_def)
  with lv have uw: "unwrap ?cond = ?cond" using hdc cond(1) by (simp add: unwrap_def dropClosing_def)
  \<comment> \<open>the properties\<close>
  have pr: "properties (conditions ?cond) = ?props" by (rule single_conditions[OF b p val])
  have "CU CHR ''$'' \<notin> set p" using il by simp
  then have "literalTemplate (p @ ustr '': '')" by (intro literalTemplate_no_dollar) (simp add: ustr_def)
  from literalTemplate_append[OF this lt] have lp: "literalTemplate ?props" by (simp add: ustr_def)
  \<comment> \<open>removing the clause and injecting\<close>
  have rw: "replaceFirst whereRegEx [] ?S = ?u @ ustr '' ''"
    unfolding replaceFirst_whereRegEx fw by (simp add: ustr_def)
  have rw': "replaceFirst whereRegEx [] ?S = (ustr ''('' @ a) @ ustr '':'' @ lab @ [] @ ustr '')'' @ ustr '' ''"
    unfolding rw by (simp add: nodeText_def)
  have "injectProperties ?props ?S =
        (ustr ''('' @ a) @ ustr '':'' @ lab @ [] @ ustr '' { '' @ ?props @ ustr '' }'' @ ustr '')'' @ ustr '' ''"
  proof (rule injectProperties_shape[OF lp ident_not_Nil[OF lab] ident_all[OF lab] _ rw'])
    show "list_all isSpace []" by simp
    show "\<forall>j' < length (ustr ''('' @ a).
            markerLen (drop j' ((ustr ''('' @ a) @ ustr '':'' @ lab @ [] @ ustr '')'' @ ustr '' '')) = None"
    proof (intro allI impI)
      fix j' assume j: "j' < length (ustr ''('' @ a)"
      have "0x3A \<notin> set (ustr ''('' @ a)" using il(4) by (simp add: ustr_def)
      from markerLen_prefix_none[OF this j]
      show "markerLen (drop j' ((ustr ''('' @ a) @ ustr '':'' @ lab @ [] @ ustr '')'' @ ustr '' '')) = None" .
    qed
  qed
  then have ip: "injectProperties ?props ?S =
        [] @ ustr ''('' @ a @ ustr '':'' @ (lab @ ustr '' { '' @ ?props @ ustr '' }) '')"
    by (simp add: ustr_def)
  \<comment> \<open>stripping the variable\<close>
  let ?post = "lab @ ustr '' { '' @ ?props @ ustr '' }) ''"
  have "CU CHR ''('' \<notin> set ?post" using np by (simp add: ustr_def il)
  then have "\<forall>k. varRefLen (drop k ?post) = None" by (intro allI varRefLen_no_paren)
  then have "stripVarRefs ?post = ?post" by (rule stripVarRefs_id)
  with stripVarRefs_ref[OF ident_not_Nil[OF a] ident_all[OF a], of "[]" ?post]
  have sv: "stripVariables (injectProperties ?props ?S) = ustr ''(:'' @ ?post"
    by (simp only: ip stripVariables_eq) simp
  from cond(1) show ?thesis
    by (simp add: transformCypherQuery_cases am fw uw pr sv)
qed

lemma single_no_newline:
  assumes "ident a" "ident lab" "ident b" "ident p" "plainValue val"
  shows "0x0A \<notin> set (ustr ''MATCH '' @ nodeText a lab @ ustr '' WHERE '' @ b @ ustr ''.'' @ p @ ustr '' = '' @ val)"
proof -
  note il = ident_lits[OF assms(1)] ident_lits[OF assms(2)] ident_lits[OF assms(3)] ident_lits[OF assms(4)]
  from assms(5) have "token val" by (simp add: plainValue_def)
  from tokenD[OF this] have "\<forall>c \<in> set val. \<not> isSpace c" by blast
  then have "0x0A \<notin> set val" by auto
  then show ?thesis by (simp add: nodeText_def ustr_def il)
qed

section \<open>The conditions of the WHERE clause\<close>

text \<open>
  Claim C4, as stated: every text of the form \<^verbatim>\<open>x.a = v1 AND x.b = v2\<close> yields the body that
  lists \<^verbatim>\<open>key: value\<close> for each condition in order. It fails for a value that contains an
  equals sign, which is cut at that sign, and for a value that contains the word AND
  between white space, which is split into two conditions.
\<close>

theorem condition_value_cut_at_equals_sign:
  "properties (conditions (ustr ''n.a = 'x=y' AND n.b = 2'')) = ustr ''a: 'x, b: 2'' \<and>
   properties (conditions (ustr ''n.a = 'x=y' AND n.b = 2'')) \<noteq> ustr ''a: 'x=y', b: 2'' \<and>
   properties (conditions (ustr ''n.a = 'rock and roll' AND n.b = 2'')) =
     ustr ''a: 'rock, roll': , b: 2'' \<and>
   properties (conditions (ustr ''n.a = 'rock and roll' AND n.b = 2'')) \<noteq>
     ustr ''a: 'rock and roll', b: 2''"
  by code_simp

text \<open>
  Claim C4, amended. Take a captured condition text that is a conjunction of conditions
  \<^verbatim>\<open>alias.key = value\<close>: between two conditions stand white space, the word AND with each
  letter in either case, and white space, and each gap may differ from the others; the
  equals sign of a condition has any white space, or none, on both sides; the alias and
  the key are not empty and have no white space and no equals sign, and the key has no
  dot; a value is not empty, has no white space at either end, no equals sign and no
  word AND, and may have white space inside. Then the conditions are parsed in the order of the text, each to
  its key and its value, and the properties body lists \<^verbatim>\<open>key: value\<close> for each condition in
  that order, joined by a comma and a space. So \<^verbatim>\<open>n.a = 1 AND n.b = 2\<close> yields \<^verbatim>\<open>a: 1, b: 2\<close>, and
  a text with \<^verbatim>\<open>and\<close> in lower and in mixed case, uneven white space and a value of two
  words that have the letters of the word inside them yields its three entries in order.
\<close>

theorem properties_preserve_condition_order:
  assumes "equality t" "\<forall>(sep, t') \<in> set ts. andGap sep \<and> equality t'"
  shows "conditions (conjunctionText t ts) = map (\<lambda>(al, key, e, v). [(key, v)]) (t # map snd ts) \<and>
         properties (conditions (conjunctionText t ts)) =
           join (ustr '', '') (map keyValue (t # map snd ts)) \<and>
         properties (conditions (ustr ''n.a = 1 AND n.b = 2'')) = ustr ''a: 1, b: 2'' \<and>
         properties (conditions (ustr ''n.a = 'Sandy Band' and n.b=2  AnD m.c  =$p'')) =
           ustr ''a: 'Sandy Band', b: 2, c: $p''"
proof -
  have "properties (conditions (ustr ''n.a = 1 AND n.b = 2'')) = ustr ''a: 1, b: 2''"
    and "properties (conditions (ustr ''n.a = 'Sandy Band' and n.b=2  AnD m.c  =$p'')) =
           ustr ''a: 'Sandy Band', b: 2, c: $p''"
    by code_simp+
  with conditions_of_conjunction[OF assms] properties_of_conjunction[OF assms]
  show ?thesis by (simp only: simp_thms)
qed

theorem properties_preserve_condition_order_witness:
  "equality (ustr ''n'', ustr ''a'', ustr '' = '', ustr '''Sandy Band'' @ [0x27]) \<and>
   andGap (ustr '' and '') \<and>
   equality (ustr ''n'', ustr ''b'', ustr ''='', ustr ''2'') \<and>
   andGap (ustr ''  AnD '') \<and>
   equality (ustr ''m'', ustr ''c'', ustr ''  ='', ustr ''$p'') \<and>
   conditions (ustr ''n.a = 'Sandy Band' and n.b=2  AnD m.c  =$p'') =
     [[(ustr ''a'', ustr '''Sandy Band'' @ [0x27])], [(ustr ''b'', ustr ''2'')], [(ustr ''c'', ustr ''$p'')]] \<and>
   properties (conditions (ustr ''n.a = 'Sandy Band' and n.b=2  AnD m.c  =$p'')) =
     ustr ''a: 'Sandy Band', b: 2, c: $p''"
proof -
  let ?t = "(ustr ''n'', ustr ''a'', ustr '' = '', ustr '''Sandy Band'' @ [0x27])"
  let ?u = "(ustr ''n'', ustr ''b'', ustr ''='', ustr ''2'')"
  let ?v = "(ustr ''m'', ustr ''c'', ustr ''  ='', ustr ''$p'')"
  let ?ts = "[(ustr '' and '', ?u), (ustr ''  AnD '', ?v)]"
  have e: "equality ?t" "equality ?u" "equality ?v" by code_simp+
  have g: "andGap (ustr '' and '')" "andGap (ustr ''  AnD '')" by code_simp+
  have x: "conjunctionText ?t ?ts = ustr ''n.a = 'Sandy Band' and n.b=2  AnD m.c  =$p''"
    by code_simp
  have c: "map (\<lambda>(al, key, e, v). [(key, v)]) (?t # map snd ?ts) =
     [[(ustr ''a'', ustr '''Sandy Band'' @ [0x27])], [(ustr ''b'', ustr ''2'')], [(ustr ''c'', ustr ''$p'')]]"
    by simp
  have k: "join (ustr '', '') (map keyValue (?t # map snd ?ts)) = ustr ''a: 'Sandy Band', b: 2, c: $p''"
    by code_simp
  have "\<forall>(sep, t') \<in> set ?ts. andGap sep \<and> equality t'" using e g by simp
  from properties_preserve_condition_order[OF e(1) this]
  have "conditions (ustr ''n.a = 'Sandy Band' and n.b=2  AnD m.c  =$p'') =
     [[(ustr ''a'', ustr '''Sandy Band'' @ [0x27])], [(ustr ''b'', ustr ''2'')], [(ustr ''c'', ustr ''$p'')]]"
    and "properties (conditions (ustr ''n.a = 'Sandy Band' and n.b=2  AnD m.c  =$p'')) =
     ustr ''a: 'Sandy Band', b: 2, c: $p''"
    unfolding x c k by blast+
  with e g show ?thesis by (simp only: simp_thms)
qed

text \<open>
  Claim C8. Parsing the conditions is total. Every captured text gives at least one
  condition, each an object with one key that has no dot in it; a piece without an equals
  sign gets the empty value and the last dot segment of the piece as its key; a piece
  that is an equals sign alone gets the empty key and the empty value; the alias before
  the key of a simple condition is stripped; and once the capture is not empty the
  rewrite returns a result.
\<close>

theorem condition_parsing_total:
  "conditions w \<noteq> [] \<and>
   (\<forall>cond \<in> set (conditions w). \<exists>k v. cond = [(k, v)] \<and> CU CHR ''.'' \<notin> set k) \<and>
   (CU CHR ''='' \<notin> set c \<longrightarrow> parseCondition c = [(lastSegment c, [])]) \<and>
   parseCondition (ustr ''='') = [([], [])] \<and>
   (simpleCondition (al, key, v) \<longrightarrow> parseCondition (conditionText (al, key, v)) = [(key, v)]) \<and>
   (\<forall>t. whereCapture (stripMatch f) = Some t \<and> t \<noteq> [] \<longrightarrow>
        (\<exists>out. transformCypherQuery f = Inr out))"
proof (intro conjI)
  show "conditions w \<noteq> []" by (simp add: conditions_def splitRe_and_not_Nil)
  show "\<forall>cond \<in> set (conditions w). \<exists>k v. cond = [(k, v)] \<and> CU CHR ''.'' \<notin> set k"
    unfolding conditions_def using lastSegment_no_dot by (auto simp: parseCondition_eq)
  show "CU CHR ''='' \<notin> set c \<longrightarrow> parseCondition c = [(lastSegment c, [])]"
    using parseCondition_no_eq by blast
  show "parseCondition (ustr ''='') = [([], [])]" by code_simp
  show "simpleCondition (al, key, v) \<longrightarrow> parseCondition (conditionText (al, key, v)) = [(key, v)]"
    using parseCondition_conditionText by blast
  show "\<forall>t. whereCapture (stripMatch f) = Some t \<and> t \<noteq> [] \<longrightarrow>
        (\<exists>out. transformCypherQuery f = Inr out)"
    by (simp add: transformCypherQuery_def Let_def)
qed

theorem condition_parsing_total_witness:
  "conditions (ustr ''this0.name = $param0 AND oops'') =
     [[(ustr ''name'', ustr ''$param0'')], [(ustr ''oops'', [])]] \<and>
   CU CHR ''='' \<notin> set (ustr ''a.oops'') \<and>
   parseCondition (ustr ''a.oops'') = [(ustr ''oops'', [])] \<and>
   simpleCondition (ustr ''this0'', ustr ''name'', ustr ''$param0'') \<and>
   parseCondition (ustr ''this0.name = $param0'') = [(ustr ''name'', ustr ''$param0'')] \<and>
   whereCapture (stripMatch (ustr ''MATCH (n:L) WHERE this0.name = $param0 AND oops'')) =
     Some (ustr ''this0.name = $param0 AND oops'') \<and>
   (\<exists>out. transformCypherQuery (ustr ''MATCH (n:L) WHERE this0.name = $param0 AND oops'') = Inr out)"
proof -
  have h1: "CU CHR ''='' \<notin> set (ustr ''a.oops'')" by code_simp
  have h2: "simpleCondition (ustr ''this0'', ustr ''name'', ustr ''$param0'')" by code_simp
  have h3: "whereCapture (stripMatch (ustr ''MATCH (n:L) WHERE this0.name = $param0 AND oops'')) =
     Some (ustr ''this0.name = $param0 AND oops'')" by code_simp
  have h4: "ustr ''this0.name = $param0 AND oops'' \<noteq> []" by code_simp
  have h5: "conditions (ustr ''this0.name = $param0 AND oops'') =
     [[(ustr ''name'', ustr ''$param0'')], [(ustr ''oops'', [])]]" by code_simp
  have h6: "lastSegment (ustr ''a.oops'') = ustr ''oops''" by code_simp
  have h7: "conditionText (ustr ''this0'', ustr ''name'', ustr ''$param0'') = ustr ''this0.name = $param0''"
    by code_simp
  from condition_parsing_total[of "ustr ''this0.name = $param0 AND oops''" "ustr ''a.oops''"
      "ustr ''this0''" "ustr ''name''" "ustr ''$param0''"
      "ustr ''MATCH (n:L) WHERE this0.name = $param0 AND oops''"] h1 h2 h3 h4
  have "parseCondition (ustr ''a.oops'') = [(lastSegment (ustr ''a.oops''), [])]"
    and "parseCondition (conditionText (ustr ''this0'', ustr ''name'', ustr ''$param0'')) =
           [(ustr ''name'', ustr ''$param0'')]"
    and "\<exists>out. transformCypherQuery (ustr ''MATCH (n:L) WHERE this0.name = $param0 AND oops'') = Inr out"
    by blast+
  with h1 h2 h3 h5 show ?thesis by (simp only: h6 h7 simp_thms)
qed

section \<open>Failure of the rewrite and the fallback\<close>

text \<open>
  Claim C2, as stated: every sub-query whose rendered text has no WHERE clause gets the
  fallback. It fails on a text without a WHERE clause in which the letters of the word
  end a longer name and white space follows: the pattern of the WHERE clause has no word
  boundary before the word, it matches there, and the text is rewritten.
\<close>

theorem no_where_clause_yet_rewritten:
  "getCypher \<lparr>subQuery = \<lambda>_. ustr ''MATCH (n:Label) RETURN n.nowhere AS x''\<rparr> () =
     ustr ''EXISTS (\<newline>(:Label { AS x:  }) RETURN n.no\<newline>)'' \<and>
   getCypher \<lparr>subQuery = \<lambda>_. ustr ''MATCH (n:Label) RETURN n.nowhere AS x''\<rparr> () \<noteq>
     ustr ''EXISTS {\<newline>'' @ padBlock (ustr ''MATCH (n:Label) RETURN n.nowhere AS x'') @ ustr ''\<newline>)'' \<and>
   transformCypherQuery (ustr ''MATCH (n:Label) RETURN n.nowhere AS x'') =
     Inr (ustr ''(:Label { AS x:  }) RETURN n.no'')"
  by code_simp

text \<open>
  Claim C2, amended. When the rendered sub-query nowhere has the letters WHERE, in any
  case, followed by white space, \<^verbatim>\<open>getCypher\<close> returns the fallback: \<^verbatim>\<open>EXISTS {\<close>, a newline,
  the whole padded text, a newline and a closing parenthesis. For every sub-query the
  failure of the rewrite is caught: \<^verbatim>\<open>getCypher\<close> returns either the rewritten form or the
  fallback. It returns the fallback exactly when the pattern of the WHERE clause matches
  nowhere in the padded text after MATCH has been stripped, or when at the first match
  the text after the white space is empty, \<^verbatim>\<open>(\<close>, \<^verbatim>\<open>)\<close> or \<^verbatim>\<open>()\<close>. A clause whose keyword is in
  lower case is rewritten.
\<close>

theorem no_where_clause_falls_back:
  "(\<not> hasWhereKeyword (subQuery this env) \<longrightarrow>
      getCypher this env = ustr ''EXISTS {\<newline>'' @ padBlock (subQuery this env) @ ustr ''\<newline>)'') \<and>
   ((\<exists>t. transformCypherQuery (padBlock (subQuery this env)) = Inr t \<and>
         getCypher this env = ustr ''EXISTS (\<newline>'' @ t @ ustr ''\<newline>)'') \<or>
    (transformCypherQuery (padBlock (subQuery this env)) = Inl (Error ''No WHERE clause found.'') \<and>
     getCypher this env = ustr ''EXISTS {\<newline>'' @ padBlock (subQuery this env) @ ustr ''\<newline>)'')) \<and>
   (getCypher this env = ustr ''EXISTS {\<newline>'' @ padBlock (subQuery this env) @ ustr ''\<newline>)'' \<longleftrightarrow>
      (case firstWhere (afterMatch (padBlock (subQuery this env))) of
         None \<Rightarrow> True
       | Some (k, r) \<Rightarrow> r = [] \<or> r = ustr ''('' \<or> r = ustr '')'' \<or> r = ustr ''()'')) \<and>
   hasWhereKeyword (ustr ''MATCH (n:Label) where n.a = 1'') \<and>
   getCypher \<lparr>subQuery = \<lambda>_. ustr ''MATCH (n:Label) where n.a = 1''\<rparr> () =
     ustr ''EXISTS (\<newline>(:Label { a: 1 }) \<newline>)''"
proof (intro conjI impI)
  show "hasWhereKeyword (ustr ''MATCH (n:Label) where n.a = 1'')" by code_simp
next
  show "getCypher \<lparr>subQuery = \<lambda>_. ustr ''MATCH (n:Label) where n.a = 1''\<rparr> () =
     ustr ''EXISTS (\<newline>(:Label { a: 1 }) \<newline>)''" by code_simp
next
  assume "\<not> hasWhereKeyword (subQuery this env)"
  then have "\<not> hasWhereKeyword (padBlock (subQuery this env))"
    by (auto dest: hasWhereKeyword_padBlock)
  then have "firstWhere (stripMatch (padBlock (subQuery this env))) = None"
    by (rule firstWhere_stripMatch_no_keyword)
  then have "transformCypherQuery (padBlock (subQuery this env)) = Inl (Error ''No WHERE clause found.'')"
    by (simp add: transformCypherQuery_cases stripMatch_eq)
  then show "getCypher this env = ustr ''EXISTS {\<newline>'' @ padBlock (subQuery this env) @ ustr ''\<newline>)''"
    by (simp add: getCypher_def Let_def)
next
  show "(\<exists>t. transformCypherQuery (padBlock (subQuery this env)) = Inr t \<and>
         getCypher this env = ustr ''EXISTS (\<newline>'' @ t @ ustr ''\<newline>)'') \<or>
    (transformCypherQuery (padBlock (subQuery this env)) = Inl (Error ''No WHERE clause found.'') \<and>
     getCypher this env = ustr ''EXISTS {\<newline>'' @ padBlock (subQuery this env) @ ustr ''\<newline>)'')"
    by (cases "transformCypherQuery (padBlock (subQuery this env))")
       (auto simp: getCypher_def Let_def transformCypherQuery_cases split: option.splits if_splits)
next
  let ?f = "padBlock (subQuery this env)"
  have d: "ustr ''EXISTS (\<newline>'' @ t @ ustr ''\<newline>)'' \<noteq> ustr ''EXISTS {\<newline>'' @ ?f @ ustr ''\<newline>)''" for t
    by (simp add: ustr_def)
  have "getCypher this env = ustr ''EXISTS {\<newline>'' @ ?f @ ustr ''\<newline>)'' \<longleftrightarrow>
        (\<exists>e. transformCypherQuery ?f = Inl e)"
    using d by (cases "transformCypherQuery ?f") (simp_all add: getCypher_def Let_def)
  also have "\<dots> \<longleftrightarrow> (case firstWhere (afterMatch ?f) of
         None \<Rightarrow> True
       | Some (k, r) \<Rightarrow> r = [] \<or> r = ustr ''('' \<or> r = ustr '')'' \<or> r = ustr ''()'')"
    by (auto simp: transformCypherQuery_cases unwrap_empty_iff[symmetric] split: option.splits)
  finally show "getCypher this env = ustr ''EXISTS {\<newline>'' @ ?f @ ustr ''\<newline>)'' \<longleftrightarrow>
      (case firstWhere (afterMatch ?f) of
         None \<Rightarrow> True
       | Some (k, r) \<Rightarrow> r = [] \<or> r = ustr ''('' \<or> r = ustr '')'' \<or> r = ustr ''()'')" .
qed

theorem no_where_clause_falls_back_witness:
  "\<not> hasWhereKeyword (ustr ''MATCH (n:Label)'') \<and>
   getCypher \<lparr>subQuery = \<lambda>_. ustr ''MATCH (n:Label)''\<rparr> () =
     ustr ''EXISTS {\<newline>'' @ [0x09] @ ustr ''MATCH (n:Label)\<newline>)''"
proof -
  have h: "\<not> hasWhereKeyword (ustr ''MATCH (n:Label)'')" by code_simp
  have p: "ustr ''EXISTS {\<newline>'' @ padBlock (ustr ''MATCH (n:Label)'') @ ustr ''\<newline>)'' =
     ustr ''EXISTS {\<newline>'' @ [0x09] @ ustr ''MATCH (n:Label)\<newline>)''" by code_simp
  from no_where_clause_falls_back[of "\<lparr>subQuery = \<lambda>_. ustr ''MATCH (n:Label)''\<rparr>" "()"] h
  have "getCypher \<lparr>subQuery = \<lambda>_. ustr ''MATCH (n:Label)''\<rparr> () =
     ustr ''EXISTS {\<newline>'' @ padBlock (ustr ''MATCH (n:Label)'') @ ustr ''\<newline>)''" by simp
  with h show ?thesis by (simp only: p simp_thms)
qed




section \<open>The variables of the node references\<close>

text \<open>
  Claim C6. Every node reference that opens with a parenthesis, a variable of word
  characters and a colon loses the variable and keeps the colon, wherever it stands in
  the fragment: the text before it and the text after it are stripped on their own. No
  such reference is left in the result of the rewrite, and a text without one is
  unchanged.
\<close>

theorem variable_names_stripped_everywhere:
  "(v \<noteq> [] \<and> list_all isWordChar v \<longrightarrow>
      stripVariables (pre @ ustr ''('' @ v @ ustr '':'' @ post) =
        stripVariables pre @ ustr ''(:'' @ stripVariables post) \<and>
   (\<forall>k. varRefLen (drop k (stripVariables t)) = None) \<and>
   ((\<forall>k. varRefLen (drop k t) = None) \<longrightarrow> stripVariables t = t) \<and>
   (transformCypherQuery f = Inr out \<longrightarrow> (\<forall>k. varRefLen (drop k out) = None))"
proof (intro conjI impI allI)
  assume "v \<noteq> [] \<and> list_all isWordChar v"
  then have "v \<noteq> []" "list_all isWordChar v" by blast+
  from stripVarRefs_ref[OF this]
  show "stripVariables (pre @ ustr ''('' @ v @ ustr '':'' @ post) =
        stripVariables pre @ ustr ''(:'' @ stripVariables post"
    by (simp only: stripVariables_eq)
next
  fix k show "varRefLen (drop k (stripVariables t)) = None"
    by (simp only: stripVariables_eq no_varRef_left)
next
  assume "\<forall>k. varRefLen (drop k t) = None"
  from stripVarRefs_id[OF this] show "stripVariables t = t" by (simp only: stripVariables_eq)
next
  fix k assume "transformCypherQuery f = Inr out"
  then obtain t where "out = stripVariables t"
    by (auto simp: transformCypherQuery_def Let_def split: option.splits if_splits)
  then show "varRefLen (drop k out) = None" by (simp only: stripVariables_eq no_varRef_left)
qed

theorem variable_names_stripped_everywhere_witness:
  "ustr ''b'' \<noteq> [] \<and> list_all isWordChar (ustr ''b'') \<and>
   stripVariables (ustr ''(a:A)-[r:R]->(b:B { name: $p })-->(c)'') =
     ustr ''(:A)-[r:R]->(:B { name: $p })-->(c)'' \<and>
   (\<forall>k. varRefLen (drop k (ustr ''(:A)-[r:R]->(:B)'')) = None) \<and>
   stripVariables (ustr ''(:A)-[r:R]->(:B)'') = ustr ''(:A)-[r:R]->(:B)'' \<and>
   transformCypherQuery (ustr ''MATCH (a:A)-[r:R]->(b:B) WHERE a.x = 1'') =
     Inr (ustr ''(:A { x: 1 })-[r:R]->(:B) '') \<and>
   (\<forall>k. varRefLen (drop k (ustr ''(:A { x: 1 })-[r:R]->(:B) '')) = None)"
proof -
  have v: "ustr ''b'' \<noteq> [] \<and> list_all isWordChar (ustr ''b'')" by code_simp
  have s1: "stripVariables (ustr ''(a:A)-[r:R]->'') = ustr ''(:A)-[r:R]->''" by code_simp
  have s2: "stripVariables (ustr ''B { name: $p })-->(c)'') = ustr ''B { name: $p })-->(c)''" by code_simp
  have a1: "ustr ''(a:A)-[r:R]->'' @ ustr ''('' @ ustr ''b'' @ ustr '':'' @ ustr ''B { name: $p })-->(c)'' =
     ustr ''(a:A)-[r:R]->(b:B { name: $p })-->(c)''" by code_simp
  have a2: "ustr ''(:A)-[r:R]->'' @ ustr ''(:'' @ ustr ''B { name: $p })-->(c)'' =
     ustr ''(:A)-[r:R]->(:B { name: $p })-->(c)''" by code_simp
  have s3: "stripVariables (ustr ''(:A)-[r:R]->'') = ustr ''(:A)-[r:R]->''" by code_simp
  have a3: "stripVariables (ustr ''(:A)-[r:R]->'') @ ustr ''(:'' @ stripVariables (ustr ''B)'') =
     ustr ''(:A)-[r:R]->(:B)''" by code_simp
  have t: "transformCypherQuery (ustr ''MATCH (a:A)-[r:R]->(b:B) WHERE a.x = 1'') =
     Inr (ustr ''(:A { x: 1 })-[r:R]->(:B) '')" by code_simp
  note thm1 = variable_names_stripped_everywhere[of "ustr ''b''" "ustr ''(a:A)-[r:R]->''"
      "ustr ''B { name: $p })-->(c)''" "ustr ''(a:A)-[r:R]->(b:B)''"
      "ustr ''MATCH (a:A)-[r:R]->(b:B) WHERE a.x = 1''" "ustr ''(:A { x: 1 })-[r:R]->(:B) ''"]
  from thm1 v have "stripVariables (ustr ''(a:A)-[r:R]->'' @ ustr ''('' @ ustr ''b'' @ ustr '':'' @ ustr ''B { name: $p })-->(c)'') =
        stripVariables (ustr ''(a:A)-[r:R]->'') @ ustr ''(:'' @ stripVariables (ustr ''B { name: $p })-->(c)'')"
    by blast
  then have c1: "stripVariables (ustr ''(a:A)-[r:R]->(b:B { name: $p })-->(c)'') =
     ustr ''(:A)-[r:R]->(:B { name: $p })-->(c)''"
    by (simp only: a1 a2 s1 s2)
  from thm1 have "\<forall>k. varRefLen (drop k (stripVariables (ustr ''(a:A)-[r:R]->(b:B)''))) = None" by blast
  moreover have "stripVariables (ustr ''(a:A)-[r:R]->(b:B)'') = ustr ''(:A)-[r:R]->(:B)''" by code_simp
  ultimately have c2: "\<forall>k. varRefLen (drop k (ustr ''(:A)-[r:R]->(:B)'')) = None" by simp
  from variable_names_stripped_everywhere[of _ _ _ "ustr ''(:A)-[r:R]->(:B)''"] c2
  have c3: "stripVariables (ustr ''(:A)-[r:R]->(:B)'') = ustr ''(:A)-[r:R]->(:B)''" by blast
  from thm1 t have c4: "\<forall>k. varRefLen (drop k (ustr ''(:A { x: 1 })-[r:R]->(:B) '')) = None" by blast
  from v c1 c2 c3 t c4 show ?thesis by (simp only: simp_thms)
qed

section \<open>The place of the properties\<close>

text \<open>
  Claim C5, as stated: every rewritten fragment has the properties body inserted exactly
  once. A fragment whose node has no label has no label marker, and nothing is inserted.
\<close>

theorem properties_not_injected_without_label:
  "transformCypherQuery (ustr ''MATCH (n) WHERE n.a = 1'') = Inr (ustr ''(n) '') \<and>
   properties (conditions (ustr ''n.a = 1'')) = ustr ''a: 1'' \<and>
   CU CHR ''{'' \<notin> set (ustr ''(n) '')"
  by code_simp

text \<open>
  Claim C5, amended. Take the fragment left after the WHERE clause is removed and a
  properties body in which no dollar sign starts a replacement pattern. When the fragment
  has a label marker (a colon, a label of word characters or between backticks, white
  space or none, then a closing parenthesis), the body, between \<^verbatim>\<open> { \<close> and \<^verbatim>\<open> }\<close>, is inserted
  once, after the first marker and the white space that follows its label, right before
  that closing parenthesis, and the text after it is unchanged. When the fragment has no
  label marker, nothing is inserted.
\<close>

theorem properties_injected_at_first_marker:
  "(literalTemplate props \<and> markerLen (drop j (replaceFirst whereRegEx [] s)) = Some n \<and>
    (\<forall>j' < j. markerLen (drop j' (replaceFirst whereRegEx [] s)) = None) \<longrightarrow>
      injectProperties props s =
        take (j + n) (replaceFirst whereRegEx [] s) @ ustr '' { '' @ props @ ustr '' }'' @
        drop (j + n) (replaceFirst whereRegEx [] s) \<and>
      (\<exists>rest. drop (j + n) (replaceFirst whereRegEx [] s) = CU CHR '')'' # rest)) \<and>
   ((\<forall>j. markerLen (drop j (replaceFirst whereRegEx [] s)) = None) \<longrightarrow>
      injectProperties props s = replaceFirst whereRegEx [] s) \<and>
   (literalTemplate props \<and> lab \<noteq> [] \<and> list_all isWordChar lab \<and> list_all isSpace ws \<and>
    replaceFirst whereRegEx [] s = pre @ ustr '':'' @ lab @ ws @ ustr '')'' @ post \<and>
    (\<forall>j' < length pre. markerLen (drop j' (pre @ ustr '':'' @ lab @ ws @ ustr '')'' @ post)) = None) \<longrightarrow>
      injectProperties props s =
        pre @ ustr '':'' @ lab @ ws @ ustr '' { '' @ props @ ustr '' }'' @ ustr '')'' @ post)"
proof (intro conjI impI)
  assume a: "literalTemplate props \<and> markerLen (drop j (replaceFirst whereRegEx [] s)) = Some n \<and>
    (\<forall>j' < j. markerLen (drop j' (replaceFirst whereRegEx [] s)) = None)"
  then show "injectProperties props s =
        take (j + n) (replaceFirst whereRegEx [] s) @ ustr '' { '' @ props @ ustr '' }'' @
        drop (j + n) (replaceFirst whereRegEx [] s)"
    by (intro injectProperties_first) blast+
  from a marker_closing[of "drop j (replaceFirst whereRegEx [] s)" n]
  show "\<exists>rest. drop (j + n) (replaceFirst whereRegEx [] s) = CU CHR '')'' # rest"
    by (simp add: add.commute)
next
  assume "\<forall>j. markerLen (drop j (replaceFirst whereRegEx [] s)) = None"
  then show "injectProperties props s = replaceFirst whereRegEx [] s"
    unfolding injectProperties_def by (rule replaceFirst_label_none)
next
  assume "literalTemplate props \<and> lab \<noteq> [] \<and> list_all isWordChar lab \<and> list_all isSpace ws \<and>
    replaceFirst whereRegEx [] s = pre @ ustr '':'' @ lab @ ws @ ustr '')'' @ post \<and>
    (\<forall>j' < length pre. markerLen (drop j' (pre @ ustr '':'' @ lab @ ws @ ustr '')'' @ post)) = None)"
  then show "injectProperties props s =
        pre @ ustr '':'' @ lab @ ws @ ustr '' { '' @ props @ ustr '' }'' @ ustr '')'' @ post"
    by (intro injectProperties_shape) blast+
qed

theorem properties_injected_at_first_marker_witness:
  "literalTemplate (ustr ''a: $p'') \<and>
   replaceFirst whereRegEx [] (ustr ''(n:Label)-[:R]->(m:Other) WHERE n.a = $p'') =
     ustr ''(n:Label)-[:R]->(m:Other) '' \<and>
   markerLen (drop 2 (ustr ''(n:Label)-[:R]->(m:Other) '')) = Some 6 \<and>
   markerLen (drop 0 (ustr ''(n:Label)-[:R]->(m:Other) '')) = None \<and>
   markerLen (drop 1 (ustr ''(n:Label)-[:R]->(m:Other) '')) = None \<and>
   injectProperties (ustr ''a: $p'') (ustr ''(n:Label)-[:R]->(m:Other) WHERE n.a = $p'') =
     ustr ''(n:Label { a: $p })-[:R]->(m:Other) '' \<and>
   (\<forall>j. markerLen (drop j (ustr ''(n)-[:R]->(m) '')) = None) \<and>
   injectProperties (ustr ''a: $p'') (ustr ''(n)-[:R]->(m) WHERE n.a = $p'') = ustr ''(n)-[:R]->(m) ''"
proof -
  let ?s = "ustr ''(n:Label)-[:R]->(m:Other) WHERE n.a = $p''"
  let ?t = "ustr ''(n:Label)-[:R]->(m:Other) ''"
  have l: "literalTemplate (ustr ''a: $p'')" by code_simp
  have t: "replaceFirst whereRegEx [] ?s = ?t" by code_simp
  have m: "markerLen (drop 2 ?t) = Some 6" by code_simp
  have f0: "markerLen (drop 0 ?t) = None" and f1: "markerLen (drop 1 ?t) = None" by code_simp+
  then have f: "\<forall>j' < 2. markerLen (drop j' ?t) = None"
    by (auto simp: less_2_cases_iff)
  have e: "take (2 + 6) ?t @ ustr '' { '' @ ustr ''a: $p'' @ ustr '' }'' @ drop (2 + 6) ?t =
     ustr ''(n:Label { a: $p })-[:R]->(m:Other) ''" by code_simp
  from properties_injected_at_first_marker[of "ustr ''a: $p''" 2 ?s 6] l m f
  have "injectProperties (ustr ''a: $p'') ?s =
        take (2 + 6) ?t @ ustr '' { '' @ ustr ''a: $p'' @ ustr '' }'' @ drop (2 + 6) ?t"
    unfolding t by blast
  then have r: "injectProperties (ustr ''a: $p'') ?s = ustr ''(n:Label { a: $p })-[:R]->(m:Other) ''"
    by (simp only: e)
  let ?s' = "ustr ''(n)-[:R]->(m) WHERE n.a = $p''"
  let ?t' = "ustr ''(n)-[:R]->(m) ''"
  have t': "replaceFirst whereRegEx [] ?s' = ?t'" by code_simp
  have "length ?t' = 14" by code_simp
  have n: "\<forall>j. markerLen (drop j ?t') = None"
  proof
    fix j
    have "list_all (\<lambda>j. markerLen (drop j ?t') = None) [0..<15]" by code_simp
    then have "j < 15 \<Longrightarrow> markerLen (drop j ?t') = None" by (simp add: list_all_iff)
    moreover have "\<not> j < 15 \<Longrightarrow> drop j ?t' = []" using \<open>length ?t' = 14\<close> by simp
    ultimately show "markerLen (drop j ?t') = None" by (cases "j < 15") simp_all
  qed
  from properties_injected_at_first_marker[of _ _ ?s'] n
  have r': "injectProperties (ustr ''a: $p'') ?s' = ?t'" unfolding t' by blast
  from l t m f0 f1 r n r' show ?thesis by (simp only: simp_thms)
qed

section \<open>The rewrite of a node with one equality condition\<close>

text \<open>
  Claim C1, as stated: the result keeps one tab of indentation before the pattern and
  ends the pattern line at the closing parenthesis. It fails at the input of the claim:
  the indentation is removed together with \<^verbatim>\<open>MATCH\<close>, and the space that stood before \<^verbatim>\<open>WHERE\<close>
  stays behind the pattern.
\<close>

theorem single_condition_rewrite_drops_tab:
  "getCypher \<lparr>subQuery = \<lambda>_. ustr ''MATCH (n:Label) WHERE n.prop = $val''\<rparr> () \<noteq>
     ustr ''EXISTS (\<newline>'' @ [0x09] @ ustr ''(:Label { prop: $val })\<newline>)''"
  by code_simp

text \<open>
  Claim C1, amended. For a sub-query rendered as \<^verbatim>\<open>MATCH (a:Label) WHERE b.prop = value\<close>, with
  identifiers for the two aliases, the label and the property and a plain value such as
  a parameter \<^verbatim>\<open>$val\<close>, \<^verbatim>\<open>getCypher\<close> returns \<^verbatim>\<open>EXISTS (\<close>, a newline, the pattern
  \<^verbatim>\<open>(:Label { prop: value })\<close> followed by one space, a newline and \<^verbatim>\<open>)\<close>: the pattern has no
  variable, no \<^verbatim>\<open>MATCH\<close> and no \<^verbatim>\<open>WHERE\<close> of the clause, and no indentation. The rewrite gives
  this pattern whatever white space the indentation of the block is made of.
\<close>

theorem single_condition_rewrite:
  assumes "ident a" "ident lab" "ident b" "ident p" "plainValue val"
    and "subQuery this env =
           ustr ''MATCH ('' @ a @ ustr '':'' @ lab @ ustr '') WHERE '' @ b @ ustr ''.'' @ p @ ustr '' = '' @ val"
  shows "getCypher this env =
           ustr ''EXISTS (\<newline>(:'' @ lab @ ustr '' { '' @ p @ ustr '': '' @ val @ ustr '' }) \<newline>)'' \<and>
         (\<forall>ind. list_all isSpace ind \<longrightarrow>
            transformCypherQuery (ind @ subQuery this env) =
              Inr (ustr ''(:'' @ lab @ ustr '' { '' @ p @ ustr '': '' @ val @ ustr '' }) ''))"
proof -
  let ?q = "ustr ''MATCH '' @ nodeText a lab @ ustr '' WHERE '' @ b @ ustr ''.'' @ p @ ustr '' = '' @ val"
  have q: "subQuery this env = ?q"
    unfolding assms(6) by (simp add: nodeText_def ustr_def)
  have t: "transformCypherQuery (ind @ subQuery this env) =
      Inr (ustr ''(:'' @ lab @ ustr '' { '' @ p @ ustr '': '' @ val @ ustr '' }) '')"
    if "list_all isSpace ind" for ind
    using single_transform[OF assms(1-5) that] by (simp only: q)
  have "padBlock (subQuery this env) = [0x09] @ subQuery this env"
    using padBlock_no_nl[OF single_no_newline[OF assms(1-5)]] by (simp only: q) simp
  moreover have "list_all isSpace [0x09]" by (simp add: class_num)
  ultimately have "transformCypherQuery (padBlock (subQuery this env)) =
      Inr (ustr ''(:'' @ lab @ ustr '' { '' @ p @ ustr '': '' @ val @ ustr '' }) '')"
    using t by (simp only:)
  then have "getCypher this env =
      ustr ''EXISTS (\<newline>(:'' @ lab @ ustr '' { '' @ p @ ustr '': '' @ val @ ustr '' }) \<newline>)''"
    by (simp add: getCypher_def Let_def ustr_def)
  with t show ?thesis by blast
qed

theorem single_condition_rewrite_witness:
  "ident (ustr ''n'') \<and> ident (ustr ''Label'') \<and> ident (ustr ''prop'') \<and> plainValue (ustr ''$val'') \<and>
   list_all isSpace (ustr ''    '') \<and>
   getCypher \<lparr>subQuery = \<lambda>_. ustr ''MATCH (n:Label) WHERE n.prop = $val''\<rparr> () =
     ustr ''EXISTS (\<newline>(:Label { prop: $val }) \<newline>)'' \<and>
   transformCypherQuery (ustr ''    MATCH (n:Label) WHERE n.prop = $val'') =
     Inr (ustr ''(:Label { prop: $val }) '')"
proof -
  let ?ex = "\<lparr>subQuery = \<lambda>_. ustr ''MATCH (n:Label) WHERE n.prop = $val''\<rparr> :: unit Exists"
  have i: "ident (ustr ''n'')" "ident (ustr ''Label'')" "ident (ustr ''prop'')" by code_simp+
  have v: "plainValue (ustr ''$val'')" by code_simp
  have w: "list_all isSpace (ustr ''    '')" by code_simp
  have s: "subQuery ?ex () =
     ustr ''MATCH ('' @ ustr ''n'' @ ustr '':'' @ ustr ''Label'' @ ustr '') WHERE '' @ ustr ''n'' @
     ustr ''.'' @ ustr ''prop'' @ ustr '' = '' @ ustr ''$val''" by code_simp
  have e: "ustr ''EXISTS (\<newline>(:'' @ ustr ''Label'' @ ustr '' { '' @ ustr ''prop'' @ ustr '': '' @
     ustr ''$val'' @ ustr '' }) \<newline>)'' = ustr ''EXISTS (\<newline>(:Label { prop: $val }) \<newline>)''" by code_simp
  have e': "ustr ''(:'' @ ustr ''Label'' @ ustr '' { '' @ ustr ''prop'' @ ustr '': '' @
     ustr ''$val'' @ ustr '' }) '' = ustr ''(:Label { prop: $val }) ''" by code_simp
  have q: "ustr ''    '' @ subQuery ?ex () = ustr ''    MATCH (n:Label) WHERE n.prop = $val''"
    by code_simp
  note r = single_condition_rewrite[OF i(1) i(2) i(1) i(3) v s]
  from r have g: "getCypher ?ex () = ustr ''EXISTS (\<newline>(:Label { prop: $val }) \<newline>)''"
    by (simp only: e)
  from r w have "transformCypherQuery (ustr ''    '' @ subQuery ?ex ()) =
     Inr (ustr ''(:Label { prop: $val }) '')" unfolding e' by blast
  then have t: "transformCypherQuery (ustr ''    MATCH (n:Label) WHERE n.prop = $val'') =
     Inr (ustr ''(:Label { prop: $val }) '')" by (simp only: q)
  from i v w g t show ?thesis by (simp only: simp_thms)
qed

section \<open>Claims settled by evaluating the code\<close>

text \<open>
  Claim C7. The claim says that a condition whose parsed key is empty contributes the
  empty string to the joined properties body. The code renders every condition as its
  key, a colon, a space and its value: the object built for a condition always has one
  own key, also when that key is the empty string, so the guard on an object without
  keys is never taken and no condition contributes the empty string. The condition
  \<^verbatim>\<open>= 5\<close> contributes \<^verbatim>\<open>: 5\<close>.
\<close>

theorem empty_key_condition_renders_colon:
  "map fst (parseCondition c) \<noteq> [] \<and>
   renderCondition (parseCondition c) \<noteq> [] \<and>
   conditions (ustr ''n.a = 1 AND = 5'') = [[(ustr ''a'', ustr ''1'')], [([], ustr ''5'')]] \<and>
   renderCondition [([], ustr ''5'')] = ustr '': 5'' \<and>
   properties (conditions (ustr ''n.a = 1 AND = 5'')) = ustr ''a: 1, : 5'' \<and>
   transformCypherQuery (ustr ''MATCH (n:Label) WHERE n.a = 1 AND = 5'') =
     Inr (ustr ''(:Label { a: 1, : 5 }) '')"
proof -
  have k: "map fst (parseCondition c) \<noteq> []"
    by (simp add: parseCondition_def Let_def)
  have r: "renderCondition (parseCondition c) \<noteq> []"
    by (simp add: parseCondition_def renderCondition_def Let_def ustr_def)
  have e: "conditions (ustr ''n.a = 1 AND = 5'') = [[(ustr ''a'', ustr ''1'')], [([], ustr ''5'')]] \<and>
      renderCondition [([], ustr ''5'')] = ustr '': 5'' \<and>
      properties (conditions (ustr ''n.a = 1 AND = 5'')) = ustr ''a: 1, : 5'' \<and>
      transformCypherQuery (ustr ''MATCH (n:Label) WHERE n.a = 1 AND = 5'') =
        Inr (ustr ''(:Label { a: 1, : 5 }) '')"
    by code_simp
  from k r e show ?thesis by blast
qed


text \<open>
  Claim C10. When WHERE is followed by white space only, or by \<^verbatim>\<open>()\<close>, the pattern matches
  with an empty capture; \<^verbatim>\<open>transformCypherQuery\<close> throws the error it throws when WHERE is
  absent, and \<^verbatim>\<open>getCypher\<close> returns the fallback form.
\<close>

theorem where_with_empty_condition_throws:
  "transformCypherQuery (padBlock (ustr ''MATCH (n:Label) WHERE  '')) = Inl (Error ''No WHERE clause found.'') \<and>
   transformCypherQuery (padBlock (ustr ''MATCH (n:Label) WHERE ()'')) = Inl (Error ''No WHERE clause found.'') \<and>
   transformCypherQuery (padBlock (ustr ''MATCH (n:Label)'')) = Inl (Error ''No WHERE clause found.'') \<and>
   whereCapture (stripMatch (padBlock (ustr ''MATCH (n:Label) WHERE  ''))) = Some [] \<and>
   whereCapture (stripMatch (padBlock (ustr ''MATCH (n:Label) WHERE ()''))) = Some [] \<and>
   whereCapture (stripMatch (padBlock (ustr ''MATCH (n:Label)''))) = None \<and>
   getCypher \<lparr>subQuery = \<lambda>_. ustr ''MATCH (n:Label) WHERE  ''\<rparr> () =
     ustr ''EXISTS {\<newline>'' @ padBlock (ustr ''MATCH (n:Label) WHERE  '') @ ustr ''\<newline>)'' \<and>
   getCypher \<lparr>subQuery = \<lambda>_. ustr ''MATCH (n:Label) WHERE ()''\<rparr> () =
     ustr ''EXISTS {\<newline>'' @ padBlock (ustr ''MATCH (n:Label) WHERE ()'') @ ustr ''\<newline>)''"
  by code_simp

end
